theory Spec2Isabelle
  imports Complex_Main "HOL-Library.Multiset"
begin

section \<open>Lattice primitives (hp.py)\<close>

text \<open>
  A coordinate is a pair of Python integers (unbounded). The run-time errors the
  code can raise are values of the type \<^verbatim>\<open>error\<close>.
\<close>

type_synonym Coord = "int \<times> int"

datatype error = IndexError | ValueError | ZeroDivisionError

definition manhattan :: "Coord \<Rightarrow> Coord \<Rightarrow> int" where
  "manhattan p q = \<bar>fst p - fst q\<bar> + \<bar>snd p - snd q\<bar>"

definition neighbours4 :: "Coord \<Rightarrow> Coord list" where
  "neighbours4 p = (case p of (x, y) \<Rightarrow> [(x + 1, y), (x - 1, y), (x, y + 1), (x, y - 1)])"

text \<open>
  \<^verbatim>\<open>is_self_avoiding\<close>: first the test \<^verbatim>\<open>len(set(coords)) != len(coords)\<close>, then the
  loop over \<^verbatim>\<open>range(len(coords) - 1)\<close> that returns False at the first pair of
  consecutive cells whose distance is not 1.
\<close>

definition is_self_avoiding :: "Coord list \<Rightarrow> bool" where
  "is_self_avoiding coords =
     (if card (set coords) \<noteq> length coords then False
      else list_all (\<lambda>i. manhattan (coords ! i) (coords ! (i + 1)) = 1)
             [0..<length coords - 1])"

definition initial_line :: "nat \<Rightarrow> Coord list" where
  "initial_line n = map (\<lambda>i. (int i, 0)) [0..<n]"

section \<open>Energy evaluator (hp.py)\<close>

text \<open>
  A loop whose body may raise: the fold stops at the first error, as the exception
  would.
\<close>

fun foldE :: "('a \<Rightarrow> 's \<Rightarrow> error + 's) \<Rightarrow> 'a list \<Rightarrow> 's \<Rightarrow> error + 's" where
  "foldE f [] s = Inr s"
| "foldE f (x # xs) s = (case f x s of Inl e \<Rightarrow> Inl e | Inr s' \<Rightarrow> foldE f xs s')"

text \<open>
  \<^verbatim>\<open>occ = {coords[i]: i for i in range(len(coords))}\<close>: a dictionary filled in index
  order, so a cell that occurs twice keeps the last index.
\<close>

definition occ_upto :: "Coord list \<Rightarrow> nat \<Rightarrow> (Coord \<rightharpoonup> nat)" where
  "occ_upto coords k = fold (\<lambda>i m. m(coords ! i \<mapsto> i)) [0..<k] Map.empty"

definition occ_of :: "Coord list \<Rightarrow> (Coord \<rightharpoonup> nat)" where
  "occ_of coords = occ_upto coords (length coords)"

text \<open>
  The body of the inner loop \<^verbatim>\<open>for nb in neighbours4(p)\<close>; \<^verbatim>\<open>hp_seq[j]\<close> raises
  IndexError when the sequence is shorter than the index.
\<close>

definition energy_nb :: "(Coord \<rightharpoonup> nat) \<Rightarrow> string \<Rightarrow> nat \<Rightarrow> Coord \<Rightarrow> int \<Rightarrow> error + int" where
  "energy_nb occ hp_seq i nb E =
     (case occ nb of
        None \<Rightarrow> Inr E
      | Some j \<Rightarrow>
          if length hp_seq \<le> j then Inl IndexError
          else if hp_seq ! j \<noteq> CHR ''H'' then Inr E
          else if \<bar>int i - int j\<bar> = 1 then Inr E
          else if i < j then Inr (E - 1)
          else Inr E)"

text \<open>The body of the outer loop \<^verbatim>\<open>for i, p in enumerate(coords)\<close>.\<close>

definition energy_at :: "(Coord \<rightharpoonup> nat) \<Rightarrow> string \<Rightarrow> nat \<times> Coord \<Rightarrow> int \<Rightarrow> error + int" where
  "energy_at occ hp_seq ip E =
     (case ip of (i, p) \<Rightarrow>
        if length hp_seq \<le> i then Inl IndexError
        else if hp_seq ! i \<noteq> CHR ''H'' then Inr E
        else foldE (energy_nb occ hp_seq i) (neighbours4 p) E)"

definition energy_hp :: "Coord list \<Rightarrow> string \<Rightarrow> error + int" where
  "energy_hp coords hp_seq =
     foldE (energy_at (occ_of coords) hp_seq) (List.enumerate 0 coords) 0"

section \<open>The random stream\<close>

text \<open>
  The code draws from a NumPy \<^verbatim>\<open>Generator\<close>, which lies outside the repository. The
  generator is modelled as the stream of raw draws it will deliver (a list, continued
  with zeros), threaded through every function that consumes it; a theorem stated for
  every stream holds whatever the seed. \<^verbatim>\<open>rng.random()\<close> is a draw of 53 bits scaled
  into [0, 1), and \<^verbatim>\<open>rng.shuffle\<close> / \<^verbatim>\<open>rng.permutation\<close> is the Fisher-Yates loop
  \<^verbatim>\<open>for i in reversed(range(1, n)): j = draw in [0, i]; swap x[i], x[j]\<close>.
  Finite floats are modelled as reals.
\<close>

type_synonym rng = "nat list"

definition next_raw :: "rng \<Rightarrow> nat \<times> rng" where
  "next_raw g = (case g of [] \<Rightarrow> (0, []) | d # ds \<Rightarrow> (d, ds))"

definition random_unit :: "rng \<Rightarrow> real \<times> rng" where
  "random_unit g = (case next_raw g of (d, g') \<Rightarrow> (real (d mod 2 ^ 53) / 2 ^ 53, g'))"

definition swap :: "'a list \<Rightarrow> nat \<Rightarrow> nat \<Rightarrow> 'a list" where
  "swap xs i j = xs[i := xs ! j, j := xs ! i]"

fun shuffle_from :: "nat \<Rightarrow> 'a list \<Rightarrow> rng \<Rightarrow> 'a list \<times> rng" where
  "shuffle_from 0 xs g = (xs, g)"
| "shuffle_from (Suc i) xs g =
     (case next_raw g of (d, g') \<Rightarrow> shuffle_from i (swap xs (Suc i) (d mod Suc (Suc i))) g')"

definition shuffle :: "'a list \<Rightarrow> rng \<Rightarrow> 'a list \<times> rng" where
  "shuffle xs g = shuffle_from (length xs - 1) xs g"

section \<open>Move engine (moves.py)\<close>

text \<open>The first success of a loop \<^verbatim>\<open>for x in xs: ... return newc\<close>.\<close>

fun first_some :: "('a \<Rightarrow> 'b option) \<Rightarrow> 'a list \<Rightarrow> 'b option" where
  "first_some f [] = None"
| "first_some f (x # xs) = (case f x of Some y \<Rightarrow> Some y | None \<Rightarrow> first_some f xs)"

text \<open>\<^verbatim>\<open>newc[idx] = cand; if is_self_avoiding(newc): return newc\<close>\<close>

definition place :: "Coord list \<Rightarrow> nat \<Rightarrow> Coord \<Rightarrow> Coord list option" where
  "place coords idx cand =
     (let newc = coords[idx := cand] in if is_self_avoiding newc then Some newc else None)"

datatype kind = End | Corner | Crankshaft

subsection \<open>End move\<close>

definition end_candidates :: "Coord list \<Rightarrow> nat \<Rightarrow> Coord list" where
  "end_candidates coords end_idx =
     (let n = length coords;
          nb_of = (if end_idx = 0 then 1 else n - 2);
          anchor = coords ! nb_of;
          occ = set coords;
          candidates = filter (\<lambda>p. p \<notin> occ \<or> p = coords ! end_idx) (neighbours4 anchor)
      in filter (\<lambda>p. p \<noteq> coords ! end_idx) candidates)"

text \<open>
  The loops of the end and of the corner move have one shape: for each index, shuffle
  its candidates and return the first placement that passes \<^verbatim>\<open>is_self_avoiding\<close>.
\<close>

fun relocate_loop ::
  "(Coord list \<Rightarrow> nat \<Rightarrow> Coord list) \<Rightarrow> Coord list \<Rightarrow> nat list \<Rightarrow> rng \<Rightarrow> Coord list option \<times> rng" where
  "relocate_loop cands_of coords [] g = (None, g)"
| "relocate_loop cands_of coords (i # is) g =
     (case shuffle (cands_of coords i) g of (candidates, g') \<Rightarrow>
        (case first_some (place coords i) candidates of
           Some newc \<Rightarrow> (Some newc, g')
         | None \<Rightarrow> relocate_loop cands_of coords is g'))"

text \<open>
  With fewer than two residues every path of the end move reads \<^verbatim>\<open>coords[nb_of]\<close> out
  of range (\<^verbatim>\<open>coords[1]\<close>, or \<^verbatim>\<open>coords[-2]\<close> of the empty list) and raises IndexError; with
  two or more, the indices 0, 1, n-2 and n-1 are all in range.
\<close>

definition attempt_end :: "Coord list \<Rightarrow> rng \<Rightarrow> error + (Coord list option \<times> rng)" where
  "attempt_end coords g =
     (let n = length coords in
      if n < 2 then Inl IndexError
      else case shuffle [0, n - 1] g of (ends, g') \<Rightarrow>
             Inr (relocate_loop end_candidates coords ends g'))"

subsection \<open>Corner move\<close>

text \<open>
  The intersection of the two neighbourhoods is a Python set turned into a list; its
  order is then shuffled. Here it is listed in the order of \<^verbatim>\<open>neighbours4(im1)\<close>.
\<close>

definition corner_candidates :: "Coord list \<Rightarrow> nat \<Rightarrow> Coord list" where
  "corner_candidates coords i =
     (let im1 = coords ! (i - 1);
          ip1 = coords ! (i + 1);
          occ = set coords;
          candidates = filter (\<lambda>c. c \<in> set (neighbours4 ip1)) (neighbours4 im1);
          candidates = filter (\<lambda>c. c \<notin> occ \<or> c = coords ! i) candidates
      in filter (\<lambda>c. c \<noteq> im1 \<and> c \<noteq> ip1 \<and> c \<noteq> coords ! i) candidates)"

text \<open>\<^verbatim>\<open>order = list(range(1, n-1))\<close>: every index has both chain neighbours in range.\<close>

definition attempt_corner :: "Coord list \<Rightarrow> rng \<Rightarrow> Coord list option \<times> rng" where
  "attempt_corner coords g =
     (case shuffle [1..<length coords - 1] g of (order, g') \<Rightarrow>
        relocate_loop corner_candidates coords order g')"

subsection \<open>Crankshaft move\<close>

text \<open>
  The two guards and the computation of the flipped cells for the four residues
  \<^verbatim>\<open>coords[k..k+3]\<close>; None stands for \<^verbatim>\<open>continue\<close>.
\<close>

definition crank_targets :: "Coord list \<Rightarrow> nat \<Rightarrow> (Coord \<times> Coord) option" where
  "crank_targets coords k =
     (let p0 = coords ! k; p1 = coords ! (k + 1); p2 = coords ! (k + 2); p3 = coords ! (k + 3) in
      if \<not> (manhattan p0 p1 = manhattan p1 p2 \<and> manhattan p1 p2 = manhattan p2 p3 \<and>
             manhattan p2 p3 = 1) then None
      else if manhattan p0 p3 \<noteq> 2 then None
      else
        let dx = fst p3 - fst p0; dy = snd p3 - snd p0 in
        if (\<bar>dx\<bar>, \<bar>dy\<bar>) = (2, 0) then
          (let midx = (fst p0 + fst p3) div 2;
               y = snd p1;
               dy_flip = (if snd p1 = snd p0 then 1 else - 1)
           in Some ((midx, y + dy_flip), ((if 0 < dx then midx + 1 else midx - 1), y + dy_flip)))
        else if (\<bar>dx\<bar>, \<bar>dy\<bar>) = (0, 2) then
          (let midy = (snd p0 + snd p3) div 2;
               x = fst p1;
               dx_flip = (if fst p1 = fst p0 then 1 else - 1)
           in Some ((x + dx_flip, midy), (x + dx_flip, (if 0 < dy then midy + 1 else midy - 1))))
        else None)"

definition crank_try :: "Coord list \<Rightarrow> nat \<Rightarrow> Coord list option" where
  "crank_try coords k =
     (case crank_targets coords k of
        None \<Rightarrow> None
      | Some (t0, t1) \<Rightarrow>
          let p1 = coords ! (k + 1); p2 = coords ! (k + 2); occ = set coords in
          if list_all (\<lambda>t. t \<notin> occ \<or> t = p1 \<or> t = p2) [t0, t1] then
            (let newc = coords[k + 1 := t0, k + 2 := t1]
             in if is_self_avoiding newc then Some newc else None)
          else None)"

text \<open>\<^verbatim>\<open>order = list(range(0, n-3))\<close>: every window k..k+3 is in range.\<close>

definition attempt_crankshaft :: "Coord list \<Rightarrow> rng \<Rightarrow> Coord list option \<times> rng" where
  "attempt_crankshaft coords g =
     (case shuffle [0..<length coords - 3] g of (order, g') \<Rightarrow>
        (first_some (crank_try coords) order, g'))"

subsection \<open>VSHD\<close>

definition attempt_kind :: "Coord list \<Rightarrow> kind \<Rightarrow> rng \<Rightarrow> error + (Coord list option \<times> rng)" where
  "attempt_kind coords k g =
     (case k of
        End \<Rightarrow> attempt_end coords g
      | Corner \<Rightarrow> Inr (attempt_corner coords g)
      | Crankshaft \<Rightarrow> Inr (attempt_crankshaft coords g))"

fun vshd_loop :: "Coord list \<Rightarrow> kind list \<Rightarrow> rng \<Rightarrow> error + (Coord list option \<times> rng)" where
  "vshd_loop coords [] g = Inr (None, g)"
| "vshd_loop coords (k # ks) g =
     (case attempt_kind coords k g of
        Inl e \<Rightarrow> Inl e
      | Inr (Some newc, g') \<Rightarrow> Inr (Some newc, g')
      | Inr (None, g') \<Rightarrow> vshd_loop coords ks g')"

definition attempt_vshd :: "Coord list \<Rightarrow> rng \<Rightarrow> error + (Coord list option \<times> rng)" where
  "attempt_vshd coords g =
     (case shuffle [End, Corner, Crankshaft] g of (kinds, g') \<Rightarrow> vshd_loop coords kinds g')"

subsection \<open>Pull move\<close>

text \<open>
  The propagation loop \<^verbatim>\<open>while j >= 0\<close>, with the first argument the number j + 1 of
  residues still to shift; None stands for \<^verbatim>\<open>valid = False\<close>.
\<close>

fun propagate :: "Coord list \<Rightarrow> nat \<Rightarrow> Coord list \<Rightarrow> Coord set \<Rightarrow> Coord list option" where
  "propagate old 0 newc occ = Some newc"
| "propagate old (Suc j) newc occ =
     (let target = old ! (j + 2) in
      if target \<in> occ \<and> target \<noteq> newc ! j then None
      else propagate old j (newc[j := target]) (insert target (occ - {newc ! j})))"

text \<open>One square (one rotation \<^verbatim>\<open>(sx, sy)\<close>) for the pivot i, with 1 \<le> i \<le> n - 2.\<close>

definition pull_try :: "Coord list \<Rightarrow> nat \<Rightarrow> Coord \<Rightarrow> Coord list option" where
  "pull_try coords i s =
     (let pi = coords ! i;
          pip1 = coords ! (i + 1);
          occ0 = set coords;
          L = (fst pip1 + fst s, snd pip1 + snd s);
          C = (fst pi + fst s, snd pi + snd s)
      in
      if L \<in> occ0 \<and> L \<noteq> pi then None
      else if C = coords ! (i - 1) then place coords i L
      else if C \<in> occ0 then None
      else
        let newc = coords[i := L, i - 1 := C];
            occ = (insert C ((insert L occ0) - {pi})) - {coords ! (i - 1)}
        in
        if 2 \<le> i \<and> manhattan (newc ! (i - 2)) (newc ! (i - 1)) = 1 then
          (if is_self_avoiding newc then Some newc else None)
        else
          (case propagate coords (i - 1) newc occ of
             None \<Rightarrow> None
           | Some newc' \<Rightarrow> if is_self_avoiding newc' then Some newc' else None))"

fun pull_loop :: "Coord list \<Rightarrow> nat list \<Rightarrow> rng \<Rightarrow> Coord list option \<times> rng" where
  "pull_loop coords [] g = (None, g)"
| "pull_loop coords (i # is) g =
     (let pi = coords ! i;
          pip1 = coords ! (i + 1);
          dx = fst pip1 - fst pi;
          dy = snd pip1 - snd pi
      in
      if \<bar>dx\<bar> + \<bar>dy\<bar> \<noteq> 1 then pull_loop coords is g
      else
        (case shuffle [(dy, - dx), (- dy, dx)] g of (shifts, g') \<Rightarrow>
           (case first_some (pull_try coords i) shifts of
              Some newc \<Rightarrow> (Some newc, g')
            | None \<Rightarrow> pull_loop coords is g')))"

definition attempt_pull :: "Coord list \<Rightarrow> rng \<Rightarrow> Coord list option \<times> rng" where
  "attempt_pull coords g =
     (let n = length coords in
      if n < 3 then (None, g)
      else case shuffle [1..<n - 1] g of (i_candidates, g') \<Rightarrow> pull_loop coords i_candidates g')"

subsection \<open>Mode selection\<close>

text \<open>The first argument is \<^verbatim>\<open>config.rho\<close> of the engine.\<close>

definition attempt_move :: "real \<Rightarrow> Coord list \<Rightarrow> string \<Rightarrow> rng \<Rightarrow> error + (Coord list option \<times> rng)" where
  "attempt_move rho coords mode g =
     (if mode \<notin> {''vshd'', ''pull'', ''hybrid''} then Inl ValueError
      else if mode = ''vshd'' then attempt_vshd coords g
      else if mode = ''pull'' then Inr (attempt_pull coords g)
      else
        (case random_unit g of (u, g1) \<Rightarrow>
           if u < rho then
             (case attempt_pull coords g1 of
                (Some res, g2) \<Rightarrow> Inr (Some res, g2)
              | (None, g2) \<Rightarrow> attempt_vshd coords g2)
           else
             (case attempt_vshd coords g1 of
                Inl e \<Rightarrow> Inl e
              | Inr (Some res, g2) \<Rightarrow> Inr (Some res, g2)
              | Inr (None, g2) \<Rightarrow> Inr (attempt_pull coords g2))))"

section \<open>Metropolis driver (monte_carlo.py)\<close>

text \<open>
  \<^verbatim>\<open>metropolis_accept\<close> is defined twice, word for word, in monte_carlo.py and in
  remc.py. The random stream is read only on the second branch.
\<close>

definition metropolis_accept :: "int \<Rightarrow> real \<Rightarrow> rng \<Rightarrow> bool \<times> rng" where
  "metropolis_accept delta_E T g =
     (if delta_E \<le> 0 then (True, g)
      else case random_unit g of (u, g') \<Rightarrow>
             (u < exp (- real_of_int delta_E / max T (1 / 10 ^ 12)), g'))"

text \<open>The dictionary both drivers return.\<close>

record run_result =
  final_coords :: "Coord list"
  best_coords :: "Coord list"
  energies :: "int list"
  best_energies :: "int list"
  best_energy :: int

text \<open>The local variables of \<^verbatim>\<open>run_mc\<close> that the loop updates.\<close>

record mc_state =
  mc_coords :: "Coord list"
  mc_E :: int
  mc_best_coords :: "Coord list"
  mc_best_E :: int
  mc_energies :: "int list"
  mc_best_energies :: "int list"
  mc_rng :: rng

definition mc_trace :: "mc_state \<Rightarrow> mc_state" where
  "mc_trace s = s\<lparr>mc_energies := mc_energies s @ [mc_E s],
                  mc_best_energies := mc_best_energies s @ [mc_best_E s]\<rparr>"

definition mc_accept :: "Coord list \<Rightarrow> int \<Rightarrow> mc_state \<Rightarrow> mc_state" where
  "mc_accept proposal E_new s =
     (let s1 = s\<lparr>mc_coords := proposal, mc_E := E_new\<rparr> in
      if mc_E s1 < mc_best_E s1 then s1\<lparr>mc_best_E := mc_E s1, mc_best_coords := mc_coords s1\<rparr>
      else s1)"

text \<open>One iteration of \<^verbatim>\<open>for t in range(steps)\<close>.\<close>

definition mc_step :: "string \<Rightarrow> real \<Rightarrow> string \<Rightarrow> real \<Rightarrow> nat \<Rightarrow> mc_state \<Rightarrow> error + mc_state" where
  "mc_step hp_seq temperature move_mode rho t s =
     (case attempt_move rho (mc_coords s) move_mode (mc_rng s) of
        Inl e \<Rightarrow> Inl e
      | Inr (None, g1) \<Rightarrow> Inr (mc_trace (s\<lparr>mc_rng := g1\<rparr>))
      | Inr (Some proposal, g1) \<Rightarrow>
          (case energy_hp proposal hp_seq of
             Inl e \<Rightarrow> Inl e
           | Inr E_new \<Rightarrow>
               (case metropolis_accept (E_new - mc_E s) temperature g1 of (acc, g2) \<Rightarrow>
                  Inr (mc_trace ((if acc then mc_accept proposal E_new s else s)\<lparr>mc_rng := g2\<rparr>)))))"

text \<open>The seed is replaced by the stream it determines.\<close>

definition run_mc :: "string \<Rightarrow> int \<Rightarrow> real \<Rightarrow> string \<Rightarrow> real \<Rightarrow> rng \<Rightarrow> error + run_result" where
  "run_mc hp_seq steps temperature move_mode rho g =
     (let steps' = min steps 10000;
          n = length hp_seq;
          coords = map (\<lambda>i. (int i, 0)) [0..<n]
      in
      case energy_hp coords hp_seq of
        Inl e \<Rightarrow> Inl e
      | Inr E \<Rightarrow>
          (case foldE (mc_step hp_seq temperature move_mode rho) [0..<nat steps']
                  \<lparr>mc_coords = coords, mc_E = E, mc_best_coords = coords, mc_best_E = E,
                   mc_energies = [], mc_best_energies = [], mc_rng = g\<rparr> of
             Inl e \<Rightarrow> Inl e
           | Inr s \<Rightarrow>
               Inr \<lparr>final_coords = mc_coords s, best_coords = mc_best_coords s,
                    energies = mc_energies s, best_energies = mc_best_energies s,
                    best_energy = mc_best_E s\<rparr>))"

section \<open>Replica exchange driver (remc.py)\<close>

text \<open>
  The local variables of \<^verbatim>\<open>run_remc\<close>. The temperature array is never assigned after
  its construction; it is kept in the state so that this can be stated.
\<close>

record remc_state =
  re_coords :: "Coord list list"
  re_E :: "int list"
  re_temps :: "real list"
  re_best_E :: int
  re_best_coords :: "Coord list"
  re_energies :: "int list"
  re_best_energies :: "int list"
  re_even :: bool
  re_rng :: rng

text \<open>\<^verbatim>\<open>np.linspace(tmin, tmax, n_replicas)\<close>, for n_replicas at least 2.\<close>

definition linspace :: "real \<Rightarrow> real \<Rightarrow> nat \<Rightarrow> real list" where
  "linspace tmin tmax n = map (\<lambda>r. tmin + real r * ((tmax - tmin) / real (n - 1))) [0..<n]"

text \<open>The body of \<^verbatim>\<open>for r in range(n_replicas)\<close>.\<close>

definition replica_move :: "string \<Rightarrow> string \<Rightarrow> real \<Rightarrow> nat \<Rightarrow> remc_state \<Rightarrow> error + remc_state" where
  "replica_move hp_seq move_mode rho r s =
     (case attempt_move rho (re_coords s ! r) move_mode (re_rng s) of
        Inl e \<Rightarrow> Inl e
      | Inr (None, g1) \<Rightarrow> Inr (s\<lparr>re_rng := g1\<rparr>)
      | Inr (Some prop, g1) \<Rightarrow>
          (case energy_hp prop hp_seq of
             Inl e \<Rightarrow> Inl e
           | Inr E_new \<Rightarrow>
               (case metropolis_accept (E_new - re_E s ! r) (re_temps s ! r) g1 of (acc, g2) \<Rightarrow>
                  if acc then
                    (let s1 = s\<lparr>re_coords := (re_coords s)[r := prop],
                                re_E := (re_E s)[r := E_new], re_rng := g2\<rparr>
                     in Inr (if E_new < re_best_E s1
                             then s1\<lparr>re_best_E := E_new, re_best_coords := prop\<rparr> else s1))
                  else Inr (s\<lparr>re_rng := g2\<rparr>))))"

text \<open>
  The exchange computes with NumPy floats, where a division by a zero temperature
  does not raise: \<^verbatim>\<open>1.0 / T\<close> is inf, and what follows may be inf, -inf or nan. The
  values of these computations are modelled as a real number (for every finite float),
  the two infinities or nan, with the IEEE rules for the operations the exchange
  uses; a comparison with nan is false. (The float -0.0 is not told apart from 0.)
\<close>

datatype npfloat = Fin real | PosInf | NegInf | NaN

text \<open>\<^verbatim>\<open>1.0 / T\<close>\<close>

definition np_recip :: "real \<Rightarrow> npfloat" where
  "np_recip T = (if T = 0 then PosInf else Fin (1 / T))"

text \<open>\<^verbatim>\<open>a - b\<close>\<close>

fun np_sub :: "npfloat \<Rightarrow> npfloat \<Rightarrow> npfloat" where
  "np_sub (Fin x) (Fin y) = Fin (x - y)"
| "np_sub NaN b = NaN"
| "np_sub a NaN = NaN"
| "np_sub PosInf PosInf = NaN"
| "np_sub NegInf NegInf = NaN"
| "np_sub PosInf b = PosInf"
| "np_sub NegInf b = NegInf"
| "np_sub (Fin x) PosInf = NegInf"
| "np_sub (Fin x) NegInf = PosInf"

text \<open>\<^verbatim>\<open>a * e\<close> for a finite \<open>e\<close> (the integer \<^verbatim>\<open>Ei - Ej\<close>)\<close>

fun np_mul :: "npfloat \<Rightarrow> real \<Rightarrow> npfloat" where
  "np_mul (Fin x) e = Fin (x * e)"
| "np_mul NaN e = NaN"
| "np_mul PosInf e = (if 0 < e then PosInf else if e < 0 then NegInf else NaN)"
| "np_mul NegInf e = (if 0 < e then NegInf else if e < 0 then PosInf else NaN)"

text \<open>\<^verbatim>\<open>a >= 0\<close>, \<^verbatim>\<open>np.exp(a)\<close> and \<^verbatim>\<open>u < a\<close> for a finite \<open>u\<close>\<close>

fun np_ge0 :: "npfloat \<Rightarrow> bool" where
  "np_ge0 (Fin x) = (0 \<le> x)"
| "np_ge0 PosInf = True"
| "np_ge0 NegInf = False"
| "np_ge0 NaN = False"

fun np_exp :: "npfloat \<Rightarrow> npfloat" where
  "np_exp (Fin x) = Fin (exp x)"
| "np_exp PosInf = PosInf"
| "np_exp NegInf = Fin 0"
| "np_exp NaN = NaN"

fun np_less :: "real \<Rightarrow> npfloat \<Rightarrow> bool" where
  "np_less u (Fin x) = (u < x)"
| "np_less u PosInf = True"
| "np_less u NegInf = False"
| "np_less u NaN = False"

text \<open>
  The body of the exchange loop for the pair (i, i + 1):
  \<^verbatim>\<open>delta = (1.0 / Tj - 1.0 / Ti) * (Ei - Ej)\<close>, \<^verbatim>\<open>acc = 1.0 if delta >= 0 else np.exp(delta)\<close>,
  and the swap \<^verbatim>\<open>if rng.random() < acc\<close>.
\<close>

definition exchange_delta :: "remc_state \<Rightarrow> nat \<Rightarrow> npfloat" where
  "exchange_delta s i =
     (let j = i + 1;
          Ei = re_E s ! i; Ej = re_E s ! j;
          Ti = re_temps s ! i; Tj = re_temps s ! j
      in np_mul (np_sub (np_recip Tj) (np_recip Ti)) (real_of_int (Ei - Ej)))"

definition exchange_acc :: "remc_state \<Rightarrow> nat \<Rightarrow> npfloat" where
  "exchange_acc s i =
     (let delta = exchange_delta s i in if np_ge0 delta then Fin 1 else np_exp delta)"

definition exchange_pair :: "nat \<Rightarrow> remc_state \<Rightarrow> remc_state" where
  "exchange_pair i s =
     (let j = i + 1;
          acc = exchange_acc s i
      in
      case random_unit (re_rng s) of (u, g') \<Rightarrow>
        if np_less u acc then
          s\<lparr>re_coords := (re_coords s)[i := re_coords s ! j, j := re_coords s ! i],
            re_E := (re_E s)[i := re_E s ! j, j := re_E s ! i],
            re_rng := g'\<rparr>
        else s\<lparr>re_rng := g'\<rparr>)"

text \<open>\<^verbatim>\<open>range(start, n_replicas - 1, 2)\<close>\<close>

definition pair_starts :: "nat \<Rightarrow> nat \<Rightarrow> nat list" where
  "pair_starts start n_replicas = filter (\<lambda>i. even (i - start)) [start..<n_replicas - 1]"

definition exchange_sweep :: "nat \<Rightarrow> remc_state \<Rightarrow> remc_state" where
  "exchange_sweep n_replicas s =
     (let start = (if re_even s then 0 else 1);
          s' = fold exchange_pair (pair_starts start n_replicas) s
      in s'\<lparr>re_even := \<not> re_even s'\<rparr>)"

text \<open>
  One iteration of \<^verbatim>\<open>for step in range(1, steps + 1)\<close>; \<^verbatim>\<open>step % exchange_every\<close> raises
  ZeroDivisionError when \<^verbatim>\<open>exchange_every\<close> is 0, and is Python's floored remainder
  otherwise, as \<open>mod\<close> on \<open>int\<close> is.
\<close>

definition remc_step ::
  "string \<Rightarrow> nat \<Rightarrow> int \<Rightarrow> string \<Rightarrow> real \<Rightarrow> nat \<Rightarrow> remc_state \<Rightarrow> error + remc_state" where
  "remc_step hp_seq n_replicas exchange_every move_mode rho step s =
     (case foldE (replica_move hp_seq move_mode rho) [0..<n_replicas] s of
        Inl e \<Rightarrow> Inl e
      | Inr s1 \<Rightarrow>
          (let s2 = s1\<lparr>re_energies := re_energies s1 @ [re_E s1 ! 0],
                       re_best_energies := re_best_energies s1 @ [re_best_E s1]\<rparr>
           in
           if exchange_every = 0 then Inl ZeroDivisionError
           else if int step mod exchange_every = 0 then Inr (exchange_sweep n_replicas s2)
           else Inr s2))"

definition run_remc ::
  "string \<Rightarrow> int \<Rightarrow> int \<Rightarrow> real \<Rightarrow> real \<Rightarrow> int \<Rightarrow> string \<Rightarrow> real \<Rightarrow> rng \<Rightarrow> error + run_result" where
  "run_remc hp_seq steps n_replicas tmin tmax exchange_every move_mode rho g =
     (let steps' = min steps 10000;
          n_replicas' = nat (max 2 n_replicas);
          n = length hp_seq;
          init_coords = map (\<lambda>i. (int i, 0)) [0..<n]
      in
      case energy_hp init_coords hp_seq of
        Inl e \<Rightarrow> Inl e
      | Inr init_E \<Rightarrow>
          (case foldE (remc_step hp_seq n_replicas' exchange_every move_mode rho)
                  [1..<nat steps' + 1]
                  \<lparr>re_coords = replicate n_replicas' init_coords,
                   re_E = replicate n_replicas' init_E,
                   re_temps = linspace tmin tmax n_replicas',
                   re_best_E = init_E, re_best_coords = init_coords,
                   re_energies = [], re_best_energies = [],
                   re_even = True, re_rng = g\<rparr> of
             Inl e \<Rightarrow> Inl e
           | Inr s \<Rightarrow>
               (let final_coords0 = re_coords s ! 0;
                    final_E = re_E s ! 0
                in Inr \<lparr>final_coords =
                          (if re_best_E s < final_E then re_best_coords s else final_coords0),
                        best_coords = re_best_coords s,
                        energies = re_energies s, best_energies = re_best_energies s,
                        best_energy = re_best_E s\<rparr>)))"

text \<open>Python's builtin \<^verbatim>\<open>min\<close> of a sequence, which raises ValueError on an empty one.\<close>

definition py_min :: "int list \<Rightarrow> error + int" where
  "py_min xs = (case xs of [] \<Rightarrow> Inl ValueError | x # xs' \<Rightarrow> Inr (fold min xs' x))"

section \<open>Auxiliary notions for the proofs\<close>

text \<open>
  A neighbour cell \<open>nb\<close> of residue \<open>i\<close> is a hit when the inner loop of the energy
  evaluator decrements the energy for it; \<open>contrib\<close> counts the hits of one residue.
\<close>

definition hit :: "(Coord \<rightharpoonup> nat) \<Rightarrow> string \<Rightarrow> nat \<Rightarrow> Coord \<Rightarrow> bool" where
  "hit occ hp_seq i nb =
     (case occ nb of None \<Rightarrow> False
      | Some j \<Rightarrow> hp_seq ! j = CHR ''H'' \<and> i < j \<and> j \<noteq> Suc i)"

definition contrib :: "(Coord \<rightharpoonup> nat) \<Rightarrow> string \<Rightarrow> nat \<times> Coord \<Rightarrow> nat" where
  "contrib occ hp_seq ip =
     (case ip of (i, p) \<Rightarrow>
        if hp_seq ! i = CHR ''H'' then length (filter (hit occ hp_seq i) (neighbours4 p)) else 0)"

text \<open>The later H residues in contact with residue \<open>i\<close>, and all contact pairs.\<close>

definition partners :: "Coord list \<Rightarrow> string \<Rightarrow> nat \<Rightarrow> nat set" where
  "partners C S i =
     {j. j < length C \<and> i < j \<and> j \<noteq> Suc i \<and> S ! j = CHR ''H'' \<and> manhattan (C ! i) (C ! j) = 1}"

definition contacts :: "Coord list \<Rightarrow> string \<Rightarrow> (nat \<times> nat) set" where
  "contacts C S =
     {(i, j). i < j \<and> i + 1 < j \<and> j < length C \<and> S ! i = CHR ''H'' \<and> S ! j = CHR ''H'' \<and>
        manhattan (C ! i) (C ! j) = 1}"

text \<open>
  What every return of the move engine satisfies: no proposal, or one that passed
  \<^verbatim>\<open>is_self_avoiding\<close> and has the length of the input.
\<close>

definition proposal_ok :: "Coord list \<Rightarrow> Coord list option \<Rightarrow> bool" where
  "proposal_ok C r =
     (case r of None \<Rightarrow> True | Some C' \<Rightarrow> is_self_avoiding C' \<and> length C' = length C)"

text \<open>Translation of a cell by the vector \<open>(dx, dy)\<close>.\<close>

definition translate :: "int \<Rightarrow> int \<Rightarrow> Coord \<Rightarrow> Coord" where
  "translate dx dy p = (case p of (x, y) \<Rightarrow> (x + dx, y + dy))"

text \<open>
  Invariants of the driver loops. The traces: both have one entry per step, the
  best-so-far trace never increases and never goes below the current best energy.
\<close>

definition trace_inv :: "int list \<Rightarrow> int list \<Rightarrow> int \<Rightarrow> nat \<Rightarrow> bool" where
  "trace_inv es bes bE k \<longleftrightarrow>
     length es = k \<and> length bes = k \<and> sorted (rev bes) \<and> (\<forall>e\<in>set bes. bE \<le> e)"

text \<open>The best record: a list as long as the sequence, whose energy is the best energy.\<close>

definition best_inv :: "string \<Rightarrow> Coord list \<Rightarrow> int \<Rightarrow> bool" where
  "best_inv S bc bE \<longleftrightarrow> length bc = length S \<and> energy_hp bc S = Inr bE \<and> bE \<le> 0"

text \<open>The state of \<^verbatim>\<open>run_mc\<close> inside an iteration, and between iterations.\<close>

definition mc_mid :: "string \<Rightarrow> nat \<Rightarrow> mc_state \<Rightarrow> bool" where
  "mc_mid S k s \<longleftrightarrow>
     length (mc_coords s) = length S \<and>
     best_inv S (mc_best_coords s) (mc_best_E s) \<and>
     trace_inv (mc_energies s) (mc_best_energies s) (mc_best_E s) k"

definition mc_inv :: "string \<Rightarrow> nat \<Rightarrow> mc_state \<Rightarrow> bool" where
  "mc_inv S k s \<longleftrightarrow>
     mc_mid S k s \<and> (mc_best_energies s = [] \<or> last (mc_best_energies s) = mc_best_E s)"

text \<open>What the invariants say of the returned dictionary after \<open>k\<close> steps.\<close>

definition result_inv :: "string \<Rightarrow> nat \<Rightarrow> run_result \<Rightarrow> bool" where
  "result_inv S k r \<longleftrightarrow>
     length (final_coords r) = length S \<and>
     best_inv S (best_coords r) (best_energy r) \<and>
     trace_inv (energies r) (best_energies r) (best_energy r) k \<and>
     (best_energies r = [] \<or> last (best_energies r) = best_energy r)"

text \<open>The state of \<^verbatim>\<open>run_remc\<close> inside an iteration, and between iterations.\<close>

definition re_mid :: "string \<Rightarrow> nat \<Rightarrow> nat \<Rightarrow> remc_state \<Rightarrow> bool" where
  "re_mid S n k s \<longleftrightarrow>
     length (re_coords s) = n \<and> length (re_E s) = n \<and>
     (\<forall>c\<in>set (re_coords s). length c = length S) \<and>
     best_inv S (re_best_coords s) (re_best_E s) \<and>
     trace_inv (re_energies s) (re_best_energies s) (re_best_E s) k"

definition re_inv :: "string \<Rightarrow> nat \<Rightarrow> nat \<Rightarrow> remc_state \<Rightarrow> bool" where
  "re_inv S n k s \<longleftrightarrow>
     re_mid S n k s \<and> (re_best_energies s = [] \<or> last (re_best_energies s) = re_best_E s)"

text \<open>A state of two replicas for the examples: the U-shape at T = 1/2, the line at T = 2.\<close>

definition two_replicas :: remc_state where
  "two_replicas =
     \<lparr>re_coords = [[(0, 0), (1, 0), (1, 1), (0, 1)], [(0, 0), (1, 0), (2, 0), (3, 0)]],
      re_E = [- 1, 0], re_temps = [1 / 2, 2], re_best_E = - 1,
      re_best_coords = [(0, 0), (1, 0), (1, 1), (0, 1)],
      re_energies = [- 1], re_best_energies = [- 1], re_even = True, re_rng = [5]\<rparr>"

section \<open>The energy evaluator counts contacts\<close>

lemma occ_upto_Suc: "occ_upto C (Suc k) = (occ_upto C k)(C ! k \<mapsto> k)"
  by (simp add: occ_upto_def)

lemma occ_upto_distinct:
  "distinct C \<Longrightarrow> k \<le> length C \<Longrightarrow> occ_upto C k p = Some j \<longleftrightarrow> j < k \<and> C ! j = p"
proof (induction k)
  case 0 then show ?case by (simp add: occ_upto_def)
next
  case (Suc k)
  then show ?case
    by (auto simp: occ_upto_Suc nth_eq_iff_index_eq less_Suc_eq)
qed

lemma occ_upto_bound: "occ_upto C k p = Some j \<Longrightarrow> j < k"
  by (induction k) (auto simp: occ_upto_def split: if_splits)

lemma occ_of_bound: "occ_of C p = Some j \<Longrightarrow> j < length C"
  unfolding occ_of_def by (rule occ_upto_bound)

lemma occ_of_distinct:
  "distinct C \<Longrightarrow> occ_of C p = Some j \<longleftrightarrow> j < length C \<and> C ! j = p"
  unfolding occ_of_def by (rule occ_upto_distinct) simp_all

text \<open>A loop whose body subtracts a count never fails and subtracts the sum.\<close>

lemma foldE_count:
  "(\<And>x s. x \<in> set xs \<Longrightarrow> f x s = Inr (s - int (c x))) \<Longrightarrow>
   foldE f xs s = Inr (s - int (sum_list (map c xs)))"
  by (induction xs arbitrary: s) simp_all

lemma energy_nb_count:
  "(\<And>j. occ nb = Some j \<Longrightarrow> j < length hp_seq) \<Longrightarrow>
   energy_nb occ hp_seq i nb E = Inr (E - int (if hit occ hp_seq i nb then 1 else 0))"
  by (auto simp: energy_nb_def hit_def split: option.splits)

lemma sum_list_indicator: "sum_list (map (\<lambda>x. if P x then 1 else 0) xs) = length (filter P xs)"
  by (induction xs) simp_all

lemma energy_at_count:
  assumes "\<And>q j. occ q = Some j \<Longrightarrow> j < length hp_seq" and "i < length hp_seq"
  shows "energy_at occ hp_seq (i, p) E = Inr (E - int (contrib occ hp_seq (i, p)))"
proof (cases "hp_seq ! i = CHR ''H''")
  case False
  with assms show ?thesis by (simp add: energy_at_def contrib_def)
next
  case True
  have "foldE (energy_nb occ hp_seq i) (neighbours4 p) E =
        Inr (E - int (sum_list (map (\<lambda>nb. if hit occ hp_seq i nb then 1 else 0) (neighbours4 p))))"
    by (rule foldE_count) (simp add: energy_nb_count assms(1))
  with True assms(2) show ?thesis
    by (simp add: energy_at_def contrib_def sum_list_indicator)
qed

lemma energy_hp_count:
  assumes "length C \<le> length S"
  shows "energy_hp C S = Inr (- int (sum_list (map (contrib (occ_of C) S) (List.enumerate 0 C))))"
proof -
  have "foldE (energy_at (occ_of C) S) (List.enumerate 0 C) 0 =
        Inr (0 - int (sum_list (map (contrib (occ_of C) S) (List.enumerate 0 C))))"
  proof (rule foldE_count)
    fix x s assume "x \<in> set (List.enumerate 0 C)"
    then have "fst x < length C" by (simp add: in_set_enumerate_eq)
    with assms have i: "fst x < length S" by simp
    have "\<And>q j. occ_of C q = Some j \<Longrightarrow> j < length S"
      using occ_of_bound assms by fastforce
    then have "energy_at (occ_of C) S (fst x, snd x) s = Inr (s - int (contrib (occ_of C) S (fst x, snd x)))"
      using i by (rule energy_at_count)
    then show "energy_at (occ_of C) S x s = Inr (s - int (contrib (occ_of C) S x))" by simp
  qed
  then show ?thesis by (simp add: energy_hp_def)
qed

lemma energy_hp_total:
  "length C \<le> length S \<Longrightarrow> \<exists>e. energy_hp C S = Inr e \<and> e \<le> 0"
  by (simp add: energy_hp_count)

lemma manhattan_neighbours4: "q \<in> set (neighbours4 p) \<longleftrightarrow> manhattan p q = 1"
  by (cases p; cases q) (auto simp: neighbours4_def manhattan_def)

lemma distinct_neighbours4: "distinct (neighbours4 p)"
  by (cases p) (simp add: neighbours4_def)

lemma hits_eq_partners:
  assumes "distinct C" "i < length C"
  shows "length (filter (hit (occ_of C) S i) (neighbours4 (C ! i))) = card (partners C S i)"
proof -
  let ?N = "{nb \<in> set (neighbours4 (C ! i)). hit (occ_of C) S i nb}"
  have "length (filter (hit (occ_of C) S i) (neighbours4 (C ! i))) = card ?N"
    using distinct_neighbours4 [of "C ! i"] by (simp add: distinct_length_filter Int_def conj_commute)
  also have "?N = (\<lambda>j. C ! j) ` partners C S i"
  proof (rule set_eqI, rule iffI)
    fix nb assume "nb \<in> ?N"
    then have nb: "nb \<in> set (neighbours4 (C ! i))" and h: "hit (occ_of C) S i nb" by simp_all
    from h obtain j where j: "occ_of C nb = Some j" "S ! j = CHR ''H''" "i < j" "j \<noteq> Suc i"
      by (auto simp: hit_def split: option.splits)
    from j(1) assms(1) have "j < length C" "C ! j = nb" by (simp_all add: occ_of_distinct)
    with nb j show "nb \<in> (\<lambda>j. C ! j) ` partners C S i"
      by (auto simp: partners_def manhattan_neighbours4)
  next
    fix nb assume "nb \<in> (\<lambda>j. C ! j) ` partners C S i"
    then obtain j where j: "nb = C ! j" "j < length C" "i < j" "j \<noteq> Suc i" "S ! j = CHR ''H''"
      "manhattan (C ! i) (C ! j) = 1" by (auto simp: partners_def)
    from j(1,2) assms(1) have "occ_of C nb = Some j" by (simp add: occ_of_distinct)
    with j show "nb \<in> ?N" by (simp add: hit_def manhattan_neighbours4)
  qed
  also have "card ((\<lambda>j. C ! j) ` partners C S i) = card (partners C S i)"
  proof (rule card_image)
    show "inj_on (\<lambda>j. C ! j) (partners C S i)"
      using assms(1) by (auto simp: inj_on_def partners_def nth_eq_iff_index_eq)
  qed
  finally show ?thesis .
qed

lemma enumerate_upt: "List.enumerate 0 C = map (\<lambda>i. (i, C ! i)) [0..<length C]"
  by (rule nth_equalityI) (simp_all add: nth_enumerate_eq)

lemma card_contacts:
  "int (card (contacts C S)) =
   int (\<Sum>i\<leftarrow>[0..<length C]. if S ! i = CHR ''H'' then card (partners C S i) else 0)"
proof -
  let ?A = "{i. i < length C \<and> S ! i = CHR ''H''}"
  have fin: "finite ?A" by simp
  have finp: "\<And>i. finite (partners C S i)" by (simp add: partners_def)
  have "contacts C S = (SIGMA i:?A. partners C S i)"
    by (auto simp: contacts_def partners_def)
  then have "card (contacts C S) = (\<Sum>i\<in>?A. card (partners C S i))"
    using fin finp by simp
  also have "\<dots> = (\<Sum>i\<in>{0..<length C}. if S ! i = CHR ''H'' then card (partners C S i) else 0)"
    by (rule sum.mono_neutral_cong_left) auto
  also have "\<dots> = (\<Sum>i\<leftarrow>[0..<length C]. if S ! i = CHR ''H'' then card (partners C S i) else 0)"
    by (simp add: interv_sum_list_conv_sum_set_nat)
  finally show ?thesis by simp
qed

lemma energy_hp_contacts:
  assumes "distinct C" "length S = length C"
  shows "energy_hp C S = Inr (- int (card (contacts C S)))"
proof -
  have "map (contrib (occ_of C) S) (List.enumerate 0 C) =
        map (\<lambda>i. if S ! i = CHR ''H'' then card (partners C S i) else 0) [0..<length C]"
    using assms(1) by (simp add: enumerate_upt contrib_def hits_eq_partners)
  then show ?thesis
    using energy_hp_count [of C S] assms(2) by (simp add: card_contacts)
qed

section \<open>Every return of the move engine passed the self-avoidance check\<close>

lemma proposal_ok_simps [simp]:
  "proposal_ok C None"
  "proposal_ok C (Some C') \<longleftrightarrow> is_self_avoiding C' \<and> length C' = length C"
  by (simp_all add: proposal_ok_def)

lemma is_self_avoiding_iff:
  "is_self_avoiding C \<longleftrightarrow>
     distinct C \<and> (\<forall>i. i + 1 < length C \<longrightarrow> manhattan (C ! i) (C ! (i + 1)) = 1)"
proof -
  have "card (set C) = length C \<longleftrightarrow> distinct C"
    using card_distinct distinct_card by blast
  moreover have "list_all (\<lambda>i. manhattan (C ! i) (C ! (i + 1)) = 1) [0..<length C - 1] \<longleftrightarrow>
      (\<forall>i. i + 1 < length C \<longrightarrow> manhattan (C ! i) (C ! (i + 1)) = 1)"
    by (auto simp: list_all_iff)
  ultimately show ?thesis by (simp add: is_self_avoiding_def)
qed

lemma first_some_ok:
  "(\<And>x. x \<in> set xs \<Longrightarrow> proposal_ok C (f x)) \<Longrightarrow> proposal_ok C (first_some f xs)"
proof (induction xs)
  case Nil
  show ?case by simp
next
  case (Cons x xs)
  have "proposal_ok C (f x)" using Cons.prems by simp
  moreover have "proposal_ok C (first_some f xs)" using Cons by simp
  ultimately show ?case by (cases "f x") simp_all
qed

lemma place_ok: "proposal_ok C (place C i c)"
  by (simp add: place_def Let_def)

lemma relocate_loop_ok: "proposal_ok C (fst (relocate_loop co C idxs g))"
proof (induction idxs arbitrary: g)
  case Nil
  show ?case by simp
next
  case (Cons i idxs)
  obtain cs g' where sh: "shuffle (co C i) g = (cs, g')" by (cases "shuffle (co C i) g")
  have "proposal_ok C (first_some (place C i) cs)"
    by (rule first_some_ok) (rule place_ok)
  with Cons.IH [of g'] sh show ?case
    by (cases "first_some (place C i) cs") simp_all
qed

lemma attempt_end_ok:
  "2 \<le> length C \<Longrightarrow> \<exists>r g'. attempt_end C g = Inr (r, g') \<and> proposal_ok C r"
proof -
  assume n: "2 \<le> length C"
  obtain es g' where sh: "shuffle [0, length C - 1] g = (es, g')"
    by (cases "shuffle [0, length C - 1] g")
  have "attempt_end C g = Inr (relocate_loop end_candidates C es g')"
    using n sh by (simp add: attempt_end_def Let_def)
  then show ?thesis
    using relocate_loop_ok [of C end_candidates es g']
    by (cases "relocate_loop end_candidates C es g'") auto
qed

lemma attempt_corner_ok: "proposal_ok C (fst (attempt_corner C g))"
proof -
  obtain order g' where sh: "shuffle [1..<length C - 1] g = (order, g')"
    by (cases "shuffle [1..<length C - 1] g")
  then show ?thesis
    using relocate_loop_ok [of C corner_candidates order g'] by (simp add: attempt_corner_def)
qed

lemma crank_try_ok: "proposal_ok C (crank_try C k)"
  by (simp add: crank_try_def Let_def split: option.splits prod.splits)

lemma attempt_crankshaft_ok: "proposal_ok C (fst (attempt_crankshaft C g))"
  by (simp add: attempt_crankshaft_def first_some_ok crank_try_ok split: prod.splits)

lemma attempt_kind_ok:
  "2 \<le> length C \<Longrightarrow> \<exists>r g'. attempt_kind C k g = Inr (r, g') \<and> proposal_ok C r"
proof (cases k)
  case End
  assume "2 \<le> length C"
  then show ?thesis using End attempt_end_ok [of C g] by (simp add: attempt_kind_def)
next
  case Corner
  then show ?thesis
    using attempt_corner_ok [of C g] by (cases "attempt_corner C g") (simp add: attempt_kind_def)
next
  case Crankshaft
  then show ?thesis
    using attempt_crankshaft_ok [of C g]
    by (cases "attempt_crankshaft C g") (simp add: attempt_kind_def)
qed

lemma vshd_loop_ok:
  "2 \<le> length C \<Longrightarrow> \<exists>r g'. vshd_loop C ks g = Inr (r, g') \<and> proposal_ok C r"
proof (induction ks arbitrary: g)
  case Nil
  show ?case by simp
next
  case (Cons k ks)
  from attempt_kind_ok [OF Cons.prems, of k g]
  obtain r g1 where k: "attempt_kind C k g = Inr (r, g1)" "proposal_ok C r" by blast
  show ?case
  proof (cases r)
    case None
    with k Cons.IH [OF Cons.prems, of g1] show ?thesis by simp
  next
    case (Some C')
    with k show ?thesis by simp
  qed
qed

lemma attempt_vshd_ok:
  "2 \<le> length C \<Longrightarrow> \<exists>r g'. attempt_vshd C g = Inr (r, g') \<and> proposal_ok C r"
proof -
  assume n: "2 \<le> length C"
  obtain ks g' where sh: "shuffle [End, Corner, Crankshaft] g = (ks, g')"
    by (cases "shuffle [End, Corner, Crankshaft] g")
  then show ?thesis using vshd_loop_ok [OF n, of ks g'] by (simp add: attempt_vshd_def)
qed

lemma propagate_length: "propagate old m newc occ = Some c \<Longrightarrow> length c = length newc"
  by (induction m arbitrary: newc occ) (auto simp: Let_def split: if_splits)

lemma pull_try_ok: "proposal_ok C (pull_try C i s)"
  by (auto simp: pull_try_def Let_def place_ok split: option.splits dest: propagate_length)

lemma pull_loop_ok: "proposal_ok C (fst (pull_loop C idxs g))"
proof (induction idxs arbitrary: g)
  case Nil
  show ?case by simp
next
  case (Cons i idxs)
  let ?dx = "fst (C ! (i + 1)) - fst (C ! i)" and ?dy = "snd (C ! (i + 1)) - snd (C ! i)"
  obtain sh g' where sh: "shuffle [(?dy, - ?dx), (- ?dy, ?dx)] g = (sh, g')"
    by (cases "shuffle [(?dy, - ?dx), (- ?dy, ?dx)] g")
  have "proposal_ok C (first_some (pull_try C i) sh)"
    by (rule first_some_ok) (rule pull_try_ok)
  with Cons.IH [of g] Cons.IH [of g'] sh show ?case
    by (cases "first_some (pull_try C i) sh") (simp_all add: Let_def)
qed

lemma attempt_pull_ok: "proposal_ok C (fst (attempt_pull C g))"
proof -
  obtain cs g' where sh: "shuffle [1..<length C - 1] g = (cs, g')"
    by (cases "shuffle [1..<length C - 1] g")
  then show ?thesis
    using pull_loop_ok [of C cs g'] by (simp add: attempt_pull_def Let_def)
qed

lemma attempt_move_ok:
  assumes "2 \<le> length C" and "mode \<in> {''vshd'', ''pull'', ''hybrid''}"
  shows "\<exists>r g'. attempt_move rho C mode g = Inr (r, g') \<and> proposal_ok C r"
proof -
  consider "mode = ''vshd''" | "mode = ''pull''" | "mode = ''hybrid''" using assms(2) by auto
  then show ?thesis
  proof cases
    case 1
    then show ?thesis using attempt_vshd_ok [OF assms(1), of g] by (simp add: attempt_move_def)
  next
    case 2
    then show ?thesis
      using attempt_pull_ok [of C g] by (cases "attempt_pull C g") (simp add: attempt_move_def)
  next
    case 3
    obtain u g1 where u: "random_unit g = (u, g1)" by (cases "random_unit g")
    show ?thesis
    proof (cases "u < rho")
      case True
      obtain r g2 where p: "attempt_pull C g1 = (r, g2)" by (cases "attempt_pull C g1")
      with attempt_pull_ok [of C g1] have ok: "proposal_ok C r" by simp
      show ?thesis
      proof (cases r)
        case None
        with 3 u True p attempt_vshd_ok [OF assms(1), of g2] show ?thesis
          by (simp add: attempt_move_def)
      next
        case (Some C')
        with 3 u True p ok show ?thesis by (simp add: attempt_move_def)
      qed
    next
      case False
      from attempt_vshd_ok [OF assms(1), of g1]
      obtain r g2 where v: "attempt_vshd C g1 = Inr (r, g2)" "proposal_ok C r" by blast
      show ?thesis
      proof (cases r)
        case None
        with 3 u False v attempt_pull_ok [of C g2] show ?thesis
          by (cases "attempt_pull C g2") (simp add: attempt_move_def)
      next
        case (Some C')
        with 3 u False v show ?thesis by (simp add: attempt_move_def)
      qed
    qed
  qed
qed

section \<open>The random stream permutes, and three unit steps have odd length\<close>

lemma shuffle_from_mset: "i < length xs \<Longrightarrow> mset (fst (shuffle_from i xs g)) = mset xs"
proof (induction i arbitrary: xs g)
  case 0
  show ?case by simp
next
  case (Suc i)
  obtain d g' where d: "next_raw g = (d, g')" by (cases "next_raw g")
  have j: "d mod Suc (Suc i) < length xs"
  proof -
    have "d mod Suc (Suc i) < Suc (Suc i)" by (rule mod_less_divisor) simp
    with Suc.prems show ?thesis by linarith
  qed
  have "mset (swap xs (Suc i) (d mod Suc (Suc i))) = mset xs"
    unfolding swap_def using Suc.prems j by (simp add: mset_swap)
  moreover have "i < length (swap xs (Suc i) (d mod Suc (Suc i)))"
    using Suc.prems by (simp add: swap_def)
  ultimately show ?case using Suc.IH [of "swap xs (Suc i) (d mod Suc (Suc i))" g'] d by simp
qed

lemma shuffle_mset: "mset (fst (shuffle xs g)) = mset xs"
proof (cases xs)
  case Nil
  then show ?thesis by (simp add: shuffle_def)
next
  case (Cons x xs')
  then show ?thesis by (simp add: shuffle_def shuffle_from_mset)
qed

lemma abs_parity: "even (\<bar>x\<bar> + \<bar>y\<bar>) \<longleftrightarrow> even (x + (y::int))"
  by presburger

lemma parity_chain:
  "odd (a1 - b1 + (a2 - b2)) \<Longrightarrow> odd (b1 - c1 + (b2 - c2)) \<Longrightarrow> odd (c1 - d1 + (c2 - d2)) \<Longrightarrow>
   odd (a1 - d1 + (a2 - (d2::int)))"
  by presburger

lemma manhattan_parity: "even (manhattan p q) \<longleftrightarrow> even (fst p - fst q + (snd p - snd q))"
  by (simp only: manhattan_def abs_parity)

lemma three_steps_odd:
  assumes "manhattan a b = 1" "manhattan b c = 1" "manhattan c d = 1"
  shows "odd (manhattan a d)"
proof -
  from assms have "odd (manhattan a b)" "odd (manhattan b c)" "odd (manhattan c d)" by simp_all
  then have "odd (fst a - fst b + (snd a - snd b))" "odd (fst b - fst c + (snd b - snd c))"
    "odd (fst c - fst d + (snd c - snd d))"
    by (simp_all only: manhattan_parity not_False_eq_True)
  then have "odd (fst a - fst d + (snd a - snd d))" by (rule parity_chain)
  then show ?thesis by (simp only: manhattan_parity not_False_eq_True)
qed

lemma crank_targets_None: "crank_targets C k = None"
proof -
  have "manhattan (C ! k) (C ! (k + 3)) \<noteq> 2"
    if "manhattan (C ! k) (C ! (k + 1)) = 1" "manhattan (C ! (k + 1)) (C ! (k + 2)) = 1"
       "manhattan (C ! (k + 2)) (C ! (k + 3)) = 1"
    using three_steps_odd [OF that] by auto
  then show ?thesis by (simp add: crank_targets_def Let_def)
qed

lemma foldE_map: "foldE f (map h xs) s = foldE (\<lambda>x. f (h x)) xs s"
  by (induction xs arbitrary: s) (simp_all split: sum.splits)

lemma foldE_cong_set:
  "(\<And>x s. x \<in> set xs \<Longrightarrow> f x s = g x s) \<Longrightarrow> foldE f xs s = foldE g xs s"
  by (induction xs arbitrary: s) (simp_all split: sum.splits)

lemma translate_inj: "translate dx dy p = translate dx dy q \<longleftrightarrow> p = q"
  by (cases p; cases q) (simp add: translate_def)

lemma neighbours4_translate:
  "neighbours4 (translate dx dy p) = map (translate dx dy) (neighbours4 p)"
  by (cases p) (simp add: neighbours4_def translate_def)

lemma occ_upto_translate:
  "k \<le> length C \<Longrightarrow>
   occ_upto (map (translate dx dy) C) k (translate dx dy p) = occ_upto C k p"
proof (induction k)
  case 0
  show ?case by (simp add: occ_upto_def)
next
  case (Suc k)
  then show ?case by (simp add: occ_upto_Suc translate_inj)
qed

lemma occ_of_translate:
  "occ_of (map (translate dx dy) C) (translate dx dy p) = occ_of C p"
  by (simp add: occ_of_def occ_upto_translate)

lemma energy_at_translate:
  "energy_at (occ_of (map (translate dx dy) C)) S (i, translate dx dy p) E =
   energy_at (occ_of C) S (i, p) E"
proof -
  have "foldE (energy_nb (occ_of (map (translate dx dy) C)) S i) (neighbours4 (translate dx dy p)) E =
        foldE (energy_nb (occ_of C) S i) (neighbours4 p) E"
    unfolding neighbours4_translate foldE_map
    by (rule foldE_cong_set) (simp add: energy_nb_def occ_of_translate)
  then show ?thesis by (simp add: energy_at_def)
qed

lemma energy_hp_translate:
  "energy_hp (map (translate dx dy) C) S = energy_hp C S"
proof -
  have "List.enumerate 0 (map (translate dx dy) C) =
        map (\<lambda>ip. (fst ip, translate dx dy (snd ip))) (List.enumerate 0 C)"
    by (simp add: enumerate_upt)
  moreover have "foldE (\<lambda>ip. energy_at (occ_of (map (translate dx dy) C)) S
                        (fst ip, translate dx dy (snd ip))) (List.enumerate 0 C) 0 =
                 foldE (energy_at (occ_of C) S) (List.enumerate 0 C) 0"
    by (rule foldE_cong_set) (simp add: energy_at_translate)
  ultimately show ?thesis
    unfolding energy_hp_def by (simp add: foldE_map)
qed

section \<open>Claims about the energy evaluator\<close>

text \<open>
  C9. The energy evaluator is translation-invariant: translating every cell of the
  conformation by a fixed vector \<open>(dx, dy)\<close> leaves the result of \<^verbatim>\<open>energy_hp\<close> unchanged
  (whatever the lists are, an IndexError included).
\<close>

theorem energy_hp_translation_invariant:
  "energy_hp (map (\<lambda>(x, y). (x + dx, y + dy)) C) S = energy_hp C S"
proof -
  have "(\<lambda>(x, y). (x + dx, y + dy)) = translate dx dy"
    by (rule ext) (simp add: translate_def)
  then show ?thesis by (simp add: energy_hp_translate)
qed

lemma upt_4: "[0..<4] = [0, 1, 2, 3]"
  by (simp add: upt_rec)

lemma energy_U: "energy_hp [(0, 0), (1, 0), (1, 1), (0, 1)] ''HHHH'' = Inr (- 1)"
  by (simp add: energy_hp_def energy_at_def energy_nb_def occ_of_def occ_upto_def
      neighbours4_def upt_4)

theorem energy_hp_translation_invariant_witness:
  "energy_hp (map (\<lambda>(x, y). (x + 5, y + (- 3))) [(0, 0), (1, 0), (1, 1), (0, 1)]) ''HHHH'' = Inr (- 1)"
  using energy_hp_translation_invariant [of 5 "- 3" "[(0, 0), (1, 0), (1, 1), (0, 1)]" "''HHHH''"]
  by (simp only: energy_U)

text \<open>
  C3. For a conformation (pairwise distinct cells) and a sequence of the same length,
  \<^verbatim>\<open>energy_hp\<close> returns minus the number of pairs \<open>(i, j)\<close> with \<open>i < j\<close>, \<open>j > i + 1\<close>,
  both residues H and the two cells at Manhattan distance 1; the result is an integer
  at most 0; the U-shape with sequence HHHH has energy -1.
\<close>

theorem energy_hp_is_contact_count:
  assumes "distinct C" and "length S = length C"
  shows "energy_hp C S =
           Inr (- int (card {(i, j). i < j \<and> i + 1 < j \<and> j < length C \<and> S ! i = CHR ''H'' \<and>
                               S ! j = CHR ''H'' \<and> manhattan (C ! i) (C ! j) = 1})) \<and>
         (\<exists>e. energy_hp C S = Inr e \<and> e \<le> 0) \<and>
         energy_hp [(0, 0), (1, 0), (1, 1), (0, 1)] ''HHHH'' = Inr (- 1)"
  using energy_hp_contacts [OF assms] energy_U by (simp add: contacts_def)

theorem energy_hp_is_contact_count_witness:
  "distinct ([(0, 0), (1, 0), (1, 1), (0, 1)] :: Coord list) \<and>
   length ''HHHH'' = length ([(0, 0), (1, 0), (1, 1), (0, 1)] :: Coord list) \<and>
   card {(i, j). i < j \<and> i + 1 < j \<and> j < length ([(0, 0), (1, 0), (1, 1), (0, 1)] :: Coord list) \<and>
          ''HHHH'' ! i = CHR ''H'' \<and> ''HHHH'' ! j = CHR ''H'' \<and>
          manhattan ([(0, 0), (1, 0), (1, 1), (0, 1)] ! i) ([(0, 0), (1, 0), (1, 1), (0, 1)] ! j) = 1} = 1"
proof -
  have d: "distinct ([(0, 0), (1, 0), (1, 1), (0, 1)] :: Coord list)" by simp
  have l: "length ''HHHH'' = length ([(0, 0), (1, 0), (1, 1), (0, 1)] :: Coord list)" by simp
  show ?thesis
    using energy_hp_is_contact_count [OF d l] d l by (simp add: energy_U)
qed

section \<open>Claims about the VSHD moves\<close>

lemma first_some_None: "(\<And>x. x \<in> set xs \<Longrightarrow> f x = None) \<Longrightarrow> first_some f xs = None"
  by (induction xs) simp_all

lemma crank_try_None: "crank_try C k = None"
  by (simp add: crank_try_def crank_targets_None)

lemma attempt_crankshaft_None: "fst (attempt_crankshaft C g) = None"
  by (simp add: attempt_crankshaft_def first_some_None crank_try_None split: prod.splits)

lemma vshd_loop_source:
  "vshd_loop C ks g = Inr (Some C', g') \<Longrightarrow>
   \<exists>k g0. k \<in> set ks \<and> attempt_kind C k g0 = Inr (Some C', g')"
proof (induction ks arbitrary: g)
  case Nil
  then show ?case by simp
next
  case (Cons k ks)
  show ?case
  proof (cases "attempt_kind C k g")
    case (Inl e)
    with Cons.prems show ?thesis by simp
  next
    case (Inr rg)
    obtain r g1 where rg: "rg = (r, g1)" by (cases rg)
    show ?thesis
    proof (cases r)
      case None
      with Inr rg Cons.prems have "vshd_loop C ks g1 = Inr (Some C', g')" by simp
      from Cons.IH [OF this] show ?thesis by auto
    next
      case (Some c)
      with Inr rg Cons.prems have "attempt_kind C k g = Inr (Some C', g')" by simp
      then show ?thesis by auto
    qed
  qed
qed

lemma attempt_vshd_source:
  assumes "attempt_vshd C g = Inr (Some C', g')"
  shows "\<exists>k g0. (k = End \<or> k = Corner) \<and> attempt_kind C k g0 = Inr (Some C', g')"
proof -
  obtain ks g1 where sh: "shuffle [End, Corner, Crankshaft] g = (ks, g1)"
    by (cases "shuffle [End, Corner, Crankshaft] g")
  with assms have "vshd_loop C ks g1 = Inr (Some C', g')" by (simp add: attempt_vshd_def)
  from vshd_loop_source [OF this]
  obtain k g0 where k: "attempt_kind C k g0 = Inr (Some C', g')" by blast
  have "k \<noteq> Crankshaft"
  proof
    assume "k = Crankshaft"
    with k have "attempt_crankshaft C g0 = (Some C', g')" by (simp add: attempt_kind_def)
    with attempt_crankshaft_None [of C g0] show False by simp
  qed
  then have "k = End \<or> k = Corner" by (cases k) simp_all
  with k show ?thesis by blast
qed

text \<open>
  C2. The crankshaft sub-move never produces a proposal. Under the connectivity
  invariant three unit steps put \<open>C[k]\<close> and \<open>C[k+3]\<close> at an odd distance, never 2; the
  first guard of the branch demands the three unit steps itself, so the branch yields
  nothing for any window of any list, the crankshaft scan returns no proposal, and a
  proposal returned by \<^verbatim>\<open>_attempt_vshd\<close> comes from the end or the corner sub-move.
\<close>

theorem crankshaft_never_proposes:
  "((\<forall>i. i + 1 < length C \<longrightarrow> manhattan (C ! i) (C ! (i + 1)) = 1) \<longrightarrow>
      (\<forall>k. k + 3 < length C \<longrightarrow>
         odd (manhattan (C ! k) (C ! (k + 3))) \<and> manhattan (C ! k) (C ! (k + 3)) \<noteq> 2)) \<and>
   crank_try C k = None \<and>
   fst (attempt_crankshaft C g) = None \<and>
   (\<forall>C' g'. attempt_vshd C g = Inr (Some C', g') \<longrightarrow>
      (\<exists>kd g0. (kd = End \<or> kd = Corner) \<and> attempt_kind C kd g0 = Inr (Some C', g')))"
proof -
  have "odd (manhattan (C ! k) (C ! (k + 3))) \<and> manhattan (C ! k) (C ! (k + 3)) \<noteq> 2"
    if conn: "\<forall>i. i + 1 < length C \<longrightarrow> manhattan (C ! i) (C ! (i + 1)) = 1" and k: "k + 3 < length C"
    for k
  proof -
    have e2: "k + 1 + 1 = k + 2" and e3: "k + 2 + 1 = k + 3" by simp_all
    from conn k have s1: "manhattan (C ! k) (C ! (k + 1)) = 1" by simp
    from conn k have "manhattan (C ! (k + 1)) (C ! (k + 1 + 1)) = 1" by simp
    then have s2: "manhattan (C ! (k + 1)) (C ! (k + 2)) = 1" by (simp only: e2)
    from conn k have "manhattan (C ! (k + 2)) (C ! (k + 2 + 1)) = 1" by simp
    then have s3: "manhattan (C ! (k + 2)) (C ! (k + 3)) = 1" by (simp only: e3)
    have "odd (manhattan (C ! k) (C ! (k + 3)))"
      using s1 s2 s3 by (rule three_steps_odd)
    then show ?thesis by auto
  qed
  then have par: "(\<forall>i. i + 1 < length C \<longrightarrow> manhattan (C ! i) (C ! (i + 1)) = 1) \<longrightarrow>
      (\<forall>k. k + 3 < length C \<longrightarrow>
         odd (manhattan (C ! k) (C ! (k + 3))) \<and> manhattan (C ! k) (C ! (k + 3)) \<noteq> 2)"
    by blast
  have src: "\<forall>C' g'. attempt_vshd C g = Inr (Some C', g') \<longrightarrow>
      (\<exists>kd g0. (kd = End \<or> kd = Corner) \<and> attempt_kind C kd g0 = Inr (Some C', g'))"
    using attempt_vshd_source by blast
  show ?thesis
    using par src crank_try_None [of C k] attempt_crankshaft_None [of C g] by (intro conjI)
qed

lemma conn_U:
  "\<forall>i. i + 1 < length ([(0, 0), (1, 0), (1, 1), (0, 1)] :: Coord list) \<longrightarrow>
     manhattan ([(0, 0), (1, 0), (1, 1), (0, 1)] ! i) ([(0, 0), (1, 0), (1, 1), (0, 1)] ! (i + 1)) = 1"
proof -
  have "is_self_avoiding [(0, 0), (1, 0), (1, 1), (0, 1)]" by code_simp
  then show ?thesis unfolding is_self_avoiding_iff by (rule conjunct2)
qed

lemma vshd_U:
  "attempt_vshd [(0, 0), (1, 0), (1, 1), (0, 1)] [] = Inr (Some [(0, 0), (1, 0), (1, 1), (1, 2)], [])"
  by code_simp

theorem crankshaft_never_proposes_witness:
  "is_self_avoiding [(0, 0), (1, 0), (1, 1), (0, 1)] \<and>
   0 + 3 < length ([(0, 0), (1, 0), (1, 1), (0, 1)] :: Coord list) \<and>
   odd (manhattan ([(0, 0), (1, 0), (1, 1), (0, 1)] ! 0) ([(0, 0), (1, 0), (1, 1), (0, 1)] ! (0 + 3))) \<and>
   attempt_vshd [(0, 0), (1, 0), (1, 1), (0, 1)] [] = Inr (Some [(0, 0), (1, 0), (1, 1), (1, 2)], []) \<and>
   (\<exists>kd g0. (kd = End \<or> kd = Corner) \<and>
      attempt_kind [(0, 0), (1, 0), (1, 1), (0, 1)] kd g0 = Inr (Some [(0, 0), (1, 0), (1, 1), (1, 2)], []))"
proof -
  let ?U = "[(0, 0), (1, 0), (1, 1), (0, 1)] :: Coord list"
  note T = crankshaft_never_proposes [of ?U 0 "[]"]
  have sa: "is_self_avoiding ?U" by code_simp
  have k: "0 + 3 < length ?U" by simp
  have step: "manhattan (?U ! i) (?U ! (i + 1)) = 1" if "i + 1 < length ?U" for i
    by (rule conn_U [rule_format]) (rule that)
  have par: "odd (manhattan (?U ! 0) (?U ! (0 + 3))) \<and> manhattan (?U ! 0) (?U ! (0 + 3)) \<noteq> 2"
    by (rule T [THEN conjunct1, rule_format]) (rule step, assumption, rule k)
  have src: "\<exists>kd g0. (kd = End \<or> kd = Corner) \<and>
         attempt_kind ?U kd g0 = Inr (Some [(0, 0), (1, 0), (1, 1), (1, 2)], [])"
    by (rule T [THEN conjunct2, THEN conjunct2, THEN conjunct2, rule_format]) (rule vshd_U)
  show ?thesis
    using sa k par [THEN conjunct1] vshd_U src by (intro conjI)
qed

section \<open>Claims about the move engine\<close>

text \<open>
  C1. For every conformation \<open>C\<close> of at least two residues that satisfies the two
  invariants (pairwise distinct cells, consecutive cells at Manhattan distance 1) and
  every mode among vshd, pull and hybrid, \<^verbatim>\<open>attempt_move\<close> returns without an error, and
  returns either no proposal or a conformation of the same length that satisfies
  both invariants again.
\<close>

theorem attempt_move_preserves_invariants:
  assumes "distinct C"
    and "\<forall>i. i + 1 < length C \<longrightarrow> manhattan (C ! i) (C ! (i + 1)) = 1"
    and "2 \<le> length C"
    and "mode \<in> {''vshd'', ''pull'', ''hybrid''}"
  shows "\<exists>r g'. attempt_move rho C mode g = Inr (r, g') \<and>
           (r = None \<or>
            (\<exists>C'. r = Some C' \<and> length C' = length C \<and> distinct C' \<and>
                  (\<forall>i. i + 1 < length C' \<longrightarrow> manhattan (C' ! i) (C' ! (i + 1)) = 1)))"
proof -
  from attempt_move_ok [OF assms(3,4), of rho g]
  obtain r g' where r: "attempt_move rho C mode g = Inr (r, g')" "proposal_ok C r" by blast
  show ?thesis
  proof (cases r)
    case None
    with r show ?thesis by simp
  next
    case (Some C')
    with r(2) have "is_self_avoiding C'" "length C' = length C" by simp_all
    with r(1) Some show ?thesis by (simp add: is_self_avoiding_iff)
  qed
qed

lemma conn_line3:
  "\<forall>i. i + 1 < length ([(0, 0), (1, 0), (2, 0)] :: Coord list) \<longrightarrow>
     manhattan ([(0, 0), (1, 0), (2, 0)] ! i) ([(0, 0), (1, 0), (2, 0)] ! (i + 1)) = 1"
proof -
  have "is_self_avoiding [(0, 0), (1, 0), (2, 0)]" by code_simp
  then show ?thesis unfolding is_self_avoiding_iff by (rule conjunct2)
qed

theorem attempt_move_preserves_invariants_witness:
  "is_self_avoiding [(0, 0), (1, 0), (2, 0)] \<and>
   2 \<le> length ([(0, 0), (1, 0), (2, 0)] :: Coord list) \<and>
   ''pull'' \<in> {''vshd'', ''pull'', ''hybrid''} \<and>
   (\<exists>r g'. attempt_move (1 / 2) [(0, 0), (1, 0), (2, 0)] ''pull'' [1, 1, 1] = Inr (r, g') \<and>
           (r = None \<or>
            (\<exists>C'. r = Some C' \<and> length C' = length ([(0, 0), (1, 0), (2, 0)] :: Coord list) \<and>
                  distinct C' \<and>
                  (\<forall>i. i + 1 < length C' \<longrightarrow> manhattan (C' ! i) (C' ! (i + 1)) = 1))))"
proof -
  let ?C = "[(0, 0), (1, 0), (2, 0)] :: Coord list"
  have sa: "is_self_avoiding ?C" by code_simp
  have d: "distinct ?C" by simp
  have n: "2 \<le> length ?C" by simp
  have m: "''pull'' \<in> {''vshd'', ''pull'', ''hybrid''}" by simp
  show ?thesis
    using sa n m
      attempt_move_preserves_invariants [OF d conn_line3 n m, of "1 / 2" "[1, 1, 1]"]
    by (intro conjI)
qed

lemma shuffle_two: "fst (shuffle [a, b] g) = [a, b] \<or> fst (shuffle [a, b] g) = [b, a]"
proof -
  obtain d g' where d: "next_raw g = (d, g')" by (cases "next_raw g")
  have "d mod Suc (Suc 0) = 0 \<or> d mod Suc (Suc 0) = Suc 0" by arith
  then show ?thesis
    using d by (auto simp: shuffle_def swap_def)
qed

lemma line3_candidates: "end_candidates [(0, 0), (1, 0), (2, 0)] 0 = [(1, 1), (1, - 1)]"
  by (simp add: end_candidates_def neighbours4_def)

lemma line3_up: "is_self_avoiding [(1, 1), (1, 0), (2, 0)]"
  by code_simp

lemma line3_down: "is_self_avoiding [(1, - 1), (1, 0), (2, 0)]"
  by code_simp

lemma line3_place:
  "place [(0, 0), (1, 0), (2, 0)] 0 (1, 1) = Some [(1, 1), (1, 0), (2, 0)]"
  "place [(0, 0), (1, 0), (2, 0)] 0 (1, - 1) = Some [(1, - 1), (1, 0), (2, 0)]"
  by (simp_all add: place_def line3_up line3_down)

lemma line3_end_move:
  "fst (relocate_loop end_candidates [(0, 0), (1, 0), (2, 0)] [0] g) = Some [(1, 1), (1, 0), (2, 0)] \<or>
   fst (relocate_loop end_candidates [(0, 0), (1, 0), (2, 0)] [0] g) = Some [(1, - 1), (1, 0), (2, 0)]"
proof -
  obtain cs g' where sh: "shuffle ([(1, 1), (1, - 1)] :: Coord list) g = (cs, g')"
    by (cases "shuffle ([(1, 1), (1, - 1)] :: Coord list) g")
  with shuffle_two [of "(1, 1) :: Coord" "(1, - 1) :: Coord" g]
  have "cs = [(1, 1), (1, - 1)] \<or> cs = [(1, - 1), (1, 1)]" by simp
  then show ?thesis
    using sh by (auto simp: line3_candidates line3_place)
qed

text \<open>
  C10 (as the code has it). On \<open>[(0,0),(1,0),(2,0)]\<close> the end move at end 0, whose anchor
  is \<open>(1,0)\<close>, has exactly two candidate placements, \<open>(1,1)\<close> and \<open>(1,-1)\<close>; both pass
  \<^verbatim>\<open>is_self_avoiding\<close>, and whatever the random stream the move returns one of the two resulting
  conformations, each with pairwise distinct cells and unit steps.
\<close>

theorem end_move_line3:
  "[(0, 0), (1, 0), (2, 0)] ! 1 = ((1, 0) :: Coord) \<and>
   end_candidates [(0, 0), (1, 0), (2, 0)] 0 = [(1, 1), (1, - 1)] \<and>
   length (end_candidates [(0, 0), (1, 0), (2, 0)] 0) = 2 \<and>
   place [(0, 0), (1, 0), (2, 0)] 0 (1, 1) = Some [(1, 1), (1, 0), (2, 0)] \<and>
   place [(0, 0), (1, 0), (2, 0)] 0 (1, - 1) = Some [(1, - 1), (1, 0), (2, 0)] \<and>
   (\<exists>C'. fst (relocate_loop end_candidates [(0, 0), (1, 0), (2, 0)] [0] g) = Some C' \<and>
         (C' = [(1, 1), (1, 0), (2, 0)] \<or> C' = [(1, - 1), (1, 0), (2, 0)]) \<and>
         is_self_avoiding C' \<and> distinct C' \<and>
         (\<forall>i. i + 1 < length C' \<longrightarrow> manhattan (C' ! i) (C' ! (i + 1)) = 1))"
proof -
  have "\<exists>C'. fst (relocate_loop end_candidates [(0, 0), (1, 0), (2, 0)] [0] g) = Some C' \<and>
         (C' = [(1, 1), (1, 0), (2, 0)] \<or> C' = [(1, - 1), (1, 0), (2, 0)]) \<and>
         is_self_avoiding C' \<and> distinct C' \<and>
         (\<forall>i. i + 1 < length C' \<longrightarrow> manhattan (C' ! i) (C' ! (i + 1)) = 1)"
    using line3_end_move [of g] line3_up line3_down
      line3_up [unfolded is_self_avoiding_iff] line3_down [unfolded is_self_avoiding_iff]
    by (elim disjE) (intro exI conjI, assumption, simp, assumption, simp, simp)+
  then show ?thesis
    by (simp add: line3_candidates line3_place)
qed

theorem end_move_line3_witness:
  "fst (relocate_loop end_candidates [(0, 0), (1, 0), (2, 0)] [0] [1]) = Some [(1, 1), (1, 0), (2, 0)]"
proof -
  have "fst (relocate_loop end_candidates [(0, 0), (1, 0), (2, 0)] [0] [1]) = Some [(1, 1), (1, 0), (2, 0)]"
    by code_simp
  with end_move_line3 [of "[1]"] show ?thesis by simp
qed

theorem end_move_line3_not_three_candidates:
  "length (end_candidates [(0, 0), (1, 0), (2, 0)] 0) \<noteq> 3"
  by (simp add: line3_candidates)

section \<open>Claim about the Metropolis rule\<close>

lemma random_unit_range: "0 \<le> fst (random_unit g) \<and> fst (random_unit g) < 1"
proof -
  obtain d g' where d: "next_raw g = (d, g')" by (cases "next_raw g")
  have "d mod 2 ^ 53 < 2 ^ 53" by simp
  then have "real (d mod 2 ^ 53) < 2 ^ 53"
    by (metis of_nat_less_iff of_nat_numeral of_nat_power)
  then show ?thesis using d by (simp add: random_unit_def)
qed

text \<open>
  C8. \<^verbatim>\<open>metropolis_accept\<close> returns True for every \<open>\<Delta>E \<le> 0\<close> and every temperature, and
  leaves the random stream untouched; for \<open>\<Delta>E > 0\<close> it consumes one uniform draw \<open>u\<close> of
  [0, 1) and accepts iff \<open>u < exp (- \<Delta>E / max T 1e-12)\<close>.
\<close>

theorem metropolis_accept_rule:
  "(delta_E \<le> 0 \<longrightarrow> metropolis_accept delta_E T g = (True, g)) \<and>
   (0 < delta_E \<longrightarrow>
      metropolis_accept delta_E T g =
        (fst (random_unit g) < exp (- real_of_int delta_E / max T (1 / 10 ^ 12)), snd (random_unit g)) \<and>
      0 \<le> fst (random_unit g) \<and> fst (random_unit g) < 1)"
  using random_unit_range [of g]
  by (simp add: metropolis_accept_def split: prod.splits)

theorem metropolis_accept_rule_witness:
  "(0 :: int) \<le> 0 \<and> metropolis_accept 0 (- 1) [7] = (True, [7]) \<and>
   (0 :: int) < 1 \<and> metropolis_accept 1 1 [] = (True, [])"
proof -
  have "fst (random_unit []) = 0" "snd (random_unit []) = []"
    by (simp_all add: random_unit_def next_raw_def)
  then show ?thesis
    using metropolis_accept_rule [of 0 "- 1" "[7]"] metropolis_accept_rule [of 1 1 "[]"]
    by simp
qed

section \<open>Loop invariants of the Metropolis driver\<close>

lemma foldE_counted:
  assumes "P n s"
    and "\<And>x n s. x \<in> set xs \<Longrightarrow> P n s \<Longrightarrow> \<exists>s'. f x s = Inr s' \<and> P (Suc n) s'"
  shows "\<exists>s'. foldE f xs s = Inr s' \<and> P (n + length xs) s'"
  using assms
proof (induction xs arbitrary: n s)
  case Nil
  then show ?case by simp
next
  case (Cons x xs)
  from Cons.prems(2) [of x n s] Cons.prems(1)
  obtain s1 where s1: "f x s = Inr s1" "P (Suc n) s1" by auto
  have "\<exists>s'. foldE f xs s1 = Inr s' \<and> P (Suc n + length xs) s'"
    by (rule Cons.IH [OF s1(2)]) (rule Cons.prems(2), simp_all)
  with s1(1) show ?case by simp
qed

lemma foldE_invariant:
  assumes "P s"
    and "\<And>x s. x \<in> set xs \<Longrightarrow> P s \<Longrightarrow> \<exists>s'. f x s = Inr s' \<and> P s'"
  shows "\<exists>s'. foldE f xs s = Inr s' \<and> P s'"
  using foldE_counted [of "\<lambda>_. P" 0 s xs f] assms by blast

lemma fold_invariant:
  "P s \<Longrightarrow> (\<And>x s. x \<in> set xs \<Longrightarrow> P s \<Longrightarrow> P (f x s)) \<Longrightarrow> P (fold f xs s)"
  by (induction xs arbitrary: s) simp_all

lemma trace_inv_append:
  "trace_inv es bes bE k \<Longrightarrow> trace_inv (es @ [e]) (bes @ [bE]) bE (Suc k)"
  by (auto simp: trace_inv_def)

lemma trace_inv_lower:
  "trace_inv es bes bE k \<Longrightarrow> bE' \<le> bE \<Longrightarrow> trace_inv es bes bE' k"
  by (auto simp: trace_inv_def)

lemma mc_mid_rng [simp]: "mc_mid S k (s\<lparr>mc_rng := g\<rparr>) = mc_mid S k s"
  by (simp add: mc_mid_def)

lemma mc_accept_mid:
  assumes "mc_mid S k s" "length prop = length S" "energy_hp prop S = Inr En" "En \<le> 0"
  shows "mc_mid S k (mc_accept prop En s)"
proof (cases "En < mc_best_E s")
  case True
  then have "trace_inv (mc_energies s) (mc_best_energies s) En k"
    using assms(1) trace_inv_lower [of _ _ "mc_best_E s" k En] by (simp add: mc_mid_def)
  with True assms show ?thesis
    by (simp add: mc_accept_def mc_mid_def best_inv_def)
next
  case False
  with assms show ?thesis by (simp add: mc_accept_def mc_mid_def)
qed

lemma mc_trace_inv: "mc_mid S k s \<Longrightarrow> mc_inv S (Suc k) (mc_trace s)"
  by (simp add: mc_inv_def mc_mid_def mc_trace_def trace_inv_append)

lemma mc_step_inv:
  assumes inv: "mc_inv S k s" and n: "2 \<le> length S"
    and mode: "mode \<in> {''vshd'', ''pull'', ''hybrid''}"
  shows "\<exists>s'. mc_step S T mode rho t s = Inr s' \<and> mc_inv S (Suc k) s'"
proof -
  from inv have mid: "mc_mid S k s" by (simp add: mc_inv_def)
  then have len: "length (mc_coords s) = length S" by (simp add: mc_mid_def)
  with n have "2 \<le> length (mc_coords s)" by simp
  from attempt_move_ok [OF this mode, of rho "mc_rng s"]
  obtain r g1 where r: "attempt_move rho (mc_coords s) mode (mc_rng s) = Inr (r, g1)"
    "proposal_ok (mc_coords s) r" by blast
  show ?thesis
  proof (cases r)
    case None
    with r(1) have "mc_step S T mode rho t s = Inr (mc_trace (s\<lparr>mc_rng := g1\<rparr>))"
      by (simp add: mc_step_def)
    moreover have "mc_inv S (Suc k) (mc_trace (s\<lparr>mc_rng := g1\<rparr>))"
      by (rule mc_trace_inv) (simp add: mid)
    ultimately show ?thesis by simp
  next
    case (Some pr)
    with r(2) len have plen: "length pr = length S" by simp
    then obtain En where En: "energy_hp pr S = Inr En" "En \<le> 0"
      using energy_hp_total [of pr S] by auto
    obtain acc g2 where acc: "metropolis_accept (En - mc_E s) T g1 = (acc, g2)"
      by (cases "metropolis_accept (En - mc_E s) T g1")
    let ?s1 = "(if acc then mc_accept pr En s else s)\<lparr>mc_rng := g2\<rparr>"
    from r(1) Some En(1) acc have "mc_step S T mode rho t s = Inr (mc_trace ?s1)"
      by (simp add: mc_step_def)
    moreover have "mc_mid S k ?s1"
      using mid mc_accept_mid [OF mid plen En] by simp
    then have "mc_inv S (Suc k) (mc_trace ?s1)" by (rule mc_trace_inv)
    ultimately show ?thesis by simp
  qed
qed

lemma distinct_line: "distinct (map (\<lambda>i. (int i, 0 :: int)) [0..<n])"
  by (simp add: distinct_map inj_on_def)

lemma energy_line: "energy_hp (map (\<lambda>i. (int i, 0)) [0..<length S]) S = Inr 0"
proof -
  let ?L = "map (\<lambda>i. (int i, 0 :: int)) [0..<length S]"
  have "contacts ?L S = {}"
    by (auto simp: contacts_def manhattan_def)
  moreover have "energy_hp ?L S = Inr (- int (card (contacts ?L S)))"
    by (rule energy_hp_contacts) (simp_all add: distinct_line)
  ultimately show ?thesis by simp
qed

lemma run_mc_ok:
  assumes n: "2 \<le> length S" and mode: "mode \<in> {''vshd'', ''pull'', ''hybrid''}"
  shows "\<exists>r. run_mc S steps T mode rho g = Inr r \<and> result_inv S (nat (min steps 10000)) r"
proof -
  let ?L = "map (\<lambda>i. (int i, 0 :: int)) [0..<length S]"
  let ?s0 = "\<lparr>mc_coords = ?L, mc_E = 0, mc_best_coords = ?L, mc_best_E = 0,
              mc_energies = [], mc_best_energies = [], mc_rng = g\<rparr>"
  have "mc_inv S 0 ?s0"
    by (simp add: mc_inv_def mc_mid_def best_inv_def trace_inv_def energy_line)
  then have "\<exists>s'. foldE (mc_step S T mode rho) [0..<nat (min steps 10000)] ?s0 = Inr s' \<and>
                 mc_inv S (0 + length [0..<nat (min steps 10000)]) s'"
    by (rule foldE_counted) (rule mc_step_inv [OF _ n mode])
  then obtain s' where s': "foldE (mc_step S T mode rho) [0..<nat (min steps 10000)] ?s0 = Inr s'"
    "mc_inv S (nat (min steps 10000)) s'" by auto
  from s'(1) have "run_mc S steps T mode rho g =
      Inr \<lparr>final_coords = mc_coords s', best_coords = mc_best_coords s',
           energies = mc_energies s', best_energies = mc_best_energies s',
           best_energy = mc_best_E s'\<rparr>"
    by (simp add: run_mc_def energy_line)
  moreover from s'(2) have "result_inv S (nat (min steps 10000))
      \<lparr>final_coords = mc_coords s', best_coords = mc_best_coords s',
           energies = mc_energies s', best_energies = mc_best_energies s',
           best_energy = mc_best_E s'\<rparr>"
    by (simp add: result_inv_def mc_inv_def mc_mid_def)
  ultimately show ?thesis by simp
qed

section \<open>Loop invariants of the replica exchange driver\<close>

lemma re_mid_rng [simp]: "re_mid S n k (s\<lparr>re_rng := g\<rparr>) = re_mid S n k s"
  by (simp add: re_mid_def)

lemma set_update_lengths:
  "\<forall>c\<in>set xs. length c = m \<Longrightarrow> length y = m \<Longrightarrow> \<forall>c\<in>set (xs[r := y]). length c = m"
  using set_update_subset_insert [of xs r y] by auto

lemma replica_accept_mid:
  assumes mid: "re_mid S n k s" and plen: "length pr = length S"
    and En: "energy_hp pr S = Inr En" "En \<le> 0"
  shows "re_mid S n k
           (let s1 = s\<lparr>re_coords := (re_coords s)[r := pr], re_E := (re_E s)[r := En], re_rng := g2\<rparr>
            in if En < re_best_E s1 then s1\<lparr>re_best_E := En, re_best_coords := pr\<rparr> else s1)"
proof -
  from mid have old: "\<forall>c\<in>set (re_coords s). length c = length S"
    by (simp add: re_mid_def)
  have lens: "\<forall>c\<in>set ((re_coords s)[r := pr]). length c = length S"
    by (rule set_update_lengths [OF old plen])
  show ?thesis
  proof (cases "En < re_best_E s")
    case True
    then have "trace_inv (re_energies s) (re_best_energies s) En k"
      using mid trace_inv_lower [of _ _ "re_best_E s" k En] by (simp add: re_mid_def)
    with True mid lens plen En show ?thesis
      by (simp add: re_mid_def best_inv_def Let_def)
  next
    case False
    with mid lens show ?thesis by (simp add: re_mid_def Let_def)
  qed
qed

lemma replica_move_mid:
  assumes mid: "re_mid S n k s" and r: "r < n" and n: "2 \<le> length S"
    and mode: "mode \<in> {''vshd'', ''pull'', ''hybrid''}"
  shows "\<exists>s'. replica_move S mode rho r s = Inr s' \<and> re_mid S n k s'"
proof -
  from mid r have "re_coords s ! r \<in> set (re_coords s)" by (simp add: re_mid_def)
  with mid have len: "length (re_coords s ! r) = length S" by (simp add: re_mid_def)
  with n have "2 \<le> length (re_coords s ! r)" by simp
  from attempt_move_ok [OF this mode, of rho "re_rng s"]
  obtain res g1 where res: "attempt_move rho (re_coords s ! r) mode (re_rng s) = Inr (res, g1)"
    "proposal_ok (re_coords s ! r) res" by blast
  show ?thesis
  proof (cases res)
    case None
    with res(1) mid show ?thesis by (simp add: replica_move_def)
  next
    case (Some pr)
    with res(2) len have plen: "length pr = length S" by simp
    then obtain En where En: "energy_hp pr S = Inr En" "En \<le> 0"
      using energy_hp_total [of pr S] by auto
    obtain acc g2 where acc: "metropolis_accept (En - re_E s ! r) (re_temps s ! r) g1 = (acc, g2)"
      by (cases "metropolis_accept (En - re_E s ! r) (re_temps s ! r) g1")
    show ?thesis
    proof (cases acc)
      case True
      with res(1) Some En(1) acc replica_accept_mid [OF mid plen En, where r = r and ?g2.0 = g2]
      show ?thesis by (simp add: replica_move_def Let_def)
    next
      case False
      with res(1) Some En(1) acc mid show ?thesis by (simp add: replica_move_def)
    qed
  qed
qed

lemma swap_lengths:
  assumes "\<forall>c\<in>set xs. length c = m" "i < length xs" "j < length xs"
  shows "\<forall>c\<in>set (xs[i := xs ! j, j := xs ! i]). length c = m"
proof -
  from assms have "length (xs ! i) = m" "length (xs ! j) = m" by simp_all
  then show ?thesis
    using assms(1) by (intro set_update_lengths) simp_all
qed

lemma exchange_pair_inv:
  assumes "re_inv S n k s" "i + 1 < n"
  shows "re_inv S n k (exchange_pair i s)"
proof -
  obtain u g' where u: "random_unit (re_rng s) = (u, g')" by (cases "random_unit (re_rng s)")
  from assms have "\<forall>c\<in>set ((re_coords s)[i := re_coords s ! (i + 1), i + 1 := re_coords s ! i]).
      length c = length S"
    by (intro swap_lengths) (simp_all add: re_inv_def re_mid_def)
  with assms u show ?thesis
    by (simp add: exchange_pair_def Let_def re_inv_def re_mid_def)
qed

lemma pair_starts_bound: "i \<in> set (pair_starts start n) \<Longrightarrow> start \<le> i \<and> i + 1 < n"
  by (auto simp: pair_starts_def)

lemma exchange_sweep_inv:
  assumes "re_inv S n k s"
  shows "re_inv S n k (exchange_sweep n s)"
proof -
  have "re_inv S n k (fold exchange_pair (pair_starts (if re_even s then 0 else 1) n) s)"
    using assms
    by (rule fold_invariant) (rule exchange_pair_inv, assumption, auto simp: pair_starts_def)
  then show ?thesis
    by (simp add: exchange_sweep_def Let_def re_inv_def re_mid_def)
qed

lemma remc_step_inv:
  assumes inv: "re_inv S n k s" and n: "2 \<le> length S"
    and mode: "mode \<in> {''vshd'', ''pull'', ''hybrid''}" and ee: "ee \<noteq> 0"
  shows "\<exists>s'. remc_step S n ee mode rho step s = Inr s' \<and> re_inv S n (Suc k) s'"
proof -
  from inv have "re_mid S n k s" by (simp add: re_inv_def)
  then have "\<exists>s1. foldE (replica_move S mode rho) [0..<n] s = Inr s1 \<and> re_mid S n k s1"
    by (rule foldE_invariant) (rule replica_move_mid [OF _ _ n mode], simp_all)
  then obtain s1 where s1: "foldE (replica_move S mode rho) [0..<n] s = Inr s1" "re_mid S n k s1"
    by blast
  let ?s2 = "s1\<lparr>re_energies := re_energies s1 @ [re_E s1 ! 0],
               re_best_energies := re_best_energies s1 @ [re_best_E s1]\<rparr>"
  from s1(2) have s2: "re_inv S n (Suc k) ?s2"
    by (simp add: re_inv_def re_mid_def trace_inv_append)
  show ?thesis
  proof (cases "int step mod ee = 0")
    case True
    with s1(1) ee have "remc_step S n ee mode rho step s = Inr (exchange_sweep n ?s2)"
      by (simp add: remc_step_def Let_def)
    with exchange_sweep_inv [OF s2] show ?thesis by simp
  next
    case False
    with s1(1) ee have "remc_step S n ee mode rho step s = Inr ?s2"
      by (simp add: remc_step_def Let_def)
    with s2 show ?thesis by simp
  qed
qed

lemma run_remc_ok:
  assumes n: "2 \<le> length S" and mode: "mode \<in> {''vshd'', ''pull'', ''hybrid''}"
    and ee: "ee \<noteq> 0"
  shows "\<exists>r. run_remc S steps nrep tmin tmax ee mode rho g = Inr r \<and>
             result_inv S (nat (min steps 10000)) r"
proof -
  let ?L = "map (\<lambda>i. (int i, 0 :: int)) [0..<length S]"
  let ?n = "nat (max 2 nrep)"
  let ?k = "nat (min steps 10000)"
  let ?s0 = "\<lparr>re_coords = replicate ?n ?L, re_E = replicate ?n 0,
              re_temps = linspace tmin tmax ?n, re_best_E = 0, re_best_coords = ?L,
              re_energies = [], re_best_energies = [], re_even = True, re_rng = g\<rparr>"
  have "re_inv S ?n 0 ?s0"
    by (simp add: re_inv_def re_mid_def best_inv_def trace_inv_def energy_line)
  then have "\<exists>s'. foldE (remc_step S ?n ee mode rho) [1..<?k + 1] ?s0 = Inr s' \<and>
                 re_inv S ?n (0 + length [1..<?k + 1]) s'"
    by (rule foldE_counted) (rule remc_step_inv [OF _ n mode ee])
  moreover have "0 + length [1..<?k + 1] = ?k" by simp
  ultimately have "\<exists>s'. foldE (remc_step S ?n ee mode rho) [1..<?k + 1] ?s0 = Inr s' \<and>
                 re_inv S ?n ?k s'"
    by (simp only:)
  then obtain s' where s': "foldE (remc_step S ?n ee mode rho) [1..<?k + 1] ?s0 = Inr s'"
    "re_inv S ?n ?k s'" by blast
  let ?r = "\<lparr>final_coords = (if re_best_E s' < re_E s' ! 0 then re_best_coords s' else re_coords s' ! 0),
             best_coords = re_best_coords s',
             energies = re_energies s', best_energies = re_best_energies s',
             best_energy = re_best_E s'\<rparr>"
  from s'(1) have "run_remc S steps nrep tmin tmax ee mode rho g = Inr ?r"
    by (simp add: run_remc_def energy_line Let_def)
  moreover have "result_inv S ?k ?r"
  proof -
    from s'(2) have "length (re_coords s') = ?n" by (simp add: re_inv_def re_mid_def)
    then have "re_coords s' ! 0 \<in> set (re_coords s')" by simp
    with s'(2) have "length (re_coords s' ! 0) = length S" by (simp add: re_inv_def re_mid_def)
    with s'(2) show ?thesis
      by (simp add: result_inv_def re_inv_def re_mid_def best_inv_def)
  qed
  ultimately show ?thesis by blast
qed

section \<open>Runs with no step, and runs with an unknown mode\<close>

lemma run_mc_no_steps:
  "steps \<le> 0 \<Longrightarrow>
   run_mc S steps T mode rho g =
     Inr \<lparr>final_coords = map (\<lambda>i. (int i, 0)) [0..<length S],
          best_coords = map (\<lambda>i. (int i, 0)) [0..<length S],
          energies = [], best_energies = [], best_energy = 0\<rparr>"
  by (simp add: run_mc_def energy_line Let_def)

lemma run_remc_no_steps:
  "steps \<le> 0 \<Longrightarrow>
   run_remc S steps nrep tmin tmax ee mode rho g =
     Inr \<lparr>final_coords = map (\<lambda>i. (int i, 0)) [0..<length S],
          best_coords = map (\<lambda>i. (int i, 0)) [0..<length S],
          energies = [], best_energies = [], best_energy = 0\<rparr>"
  by (simp add: run_remc_def energy_line Let_def)

lemma foldE_first_error:
  "xs \<noteq> [] \<Longrightarrow> (\<And>s. f (hd xs) s = Inl e) \<Longrightarrow> foldE f xs s = Inl e"
  by (cases xs) simp_all

lemma attempt_move_bad_mode:
  "mode \<notin> {''vshd'', ''pull'', ''hybrid''} \<Longrightarrow> attempt_move rho C mode g = Inl ValueError"
  by (simp add: attempt_move_def)

lemma run_mc_bad_mode:
  assumes "mode \<notin> {''vshd'', ''pull'', ''hybrid''}" and "1 \<le> steps"
  shows "run_mc S steps T mode rho g = Inl ValueError"
proof -
  have ne: "[0..<nat (min steps 10000)] \<noteq> []" using assms(2) by simp
  have "foldE (mc_step S T mode rho) [0..<nat (min steps 10000)] s0 = Inl ValueError" for s0
    using ne
    by (rule foldE_first_error) (simp add: mc_step_def attempt_move_bad_mode [OF assms(1)])
  then show ?thesis by (simp add: run_mc_def energy_line Let_def)
qed

lemma run_remc_bad_mode:
  assumes "mode \<notin> {''vshd'', ''pull'', ''hybrid''}" and "1 \<le> steps"
  shows "run_remc S steps nrep tmin tmax ee mode rho g = Inl ValueError"
proof -
  let ?n = "nat (max 2 nrep)"
  have ne: "[1..<nat (min steps 10000) + 1] \<noteq> []" using assms(2) by simp
  have nr: "[0..<?n] \<noteq> []" by simp
  have "foldE (replica_move S mode rho) [0..<?n] s = Inl ValueError" for s
    using nr
    by (rule foldE_first_error) (simp add: replica_move_def attempt_move_bad_mode [OF assms(1)])
  then have "remc_step S ?n ee mode rho step s = Inl ValueError" for step s
    by (simp add: remc_step_def)
  then have "foldE (remc_step S ?n ee mode rho) [1..<nat (min steps 10000) + 1] s0 = Inl ValueError"
    for s0
    using ne by (intro foldE_first_error) simp_all
  then show ?thesis by (simp add: run_remc_def energy_line Let_def)
qed

lemma py_min_last:
  assumes "bes \<noteq> []" "last bes = b" "\<forall>e\<in>set bes. b \<le> e"
  shows "py_min bes = Inr b"
proof -
  from assms(1) obtain x xs where bes: "bes = x # xs" by (cases bes) auto
  have "b \<in> set bes" using assms(1,2) last_in_set by blast
  then have "Min (set bes) = b"
    using assms(3) by (intro Min_eqI) simp_all
  moreover have "fold min xs x = Min (set (x # xs))"
    by (rule Min.set_eq_fold [symmetric])
  ultimately show ?thesis using bes by (simp add: py_min_def)
qed

lemma result_min:
  "result_inv S k r \<Longrightarrow> 0 < k \<Longrightarrow> py_min (best_energies r) = Inr (best_energy r)"
  by (rule py_min_last) (auto simp: result_inv_def trace_inv_def)

lemma result_monotone:
  "result_inv S k r \<Longrightarrow>
   \<forall>i j. i < j \<and> j < length (best_energies r) \<longrightarrow> best_energies r ! j \<le> best_energies r ! i"
proof -
  assume "result_inv S k r"
  then have "sorted (rev (best_energies r))" by (simp add: result_inv_def trace_inv_def)
  then have "sorted_wrt (\<lambda>a b. b \<le> a) (best_energies r)"
    by (simp add: sorted_wrt_rev)
  then show ?thesis by (simp add: sorted_wrt_iff_nth_less)
qed

section \<open>Claims about the drivers\<close>

text \<open>
  C7. For a sequence of at least two residues, a known mode and a non-zero exchange
  period, \<^verbatim>\<open>run_mc\<close> and \<^verbatim>\<open>run_remc\<close> return, and the two traces they return have the same
  length, the effective step count \<open>max 0 (min steps 10000)\<close>, which never exceeds 10000;
  the best-so-far trace never increases.
\<close>

theorem traces_length_and_monotone:
  assumes "2 \<le> length S" and "mode \<in> {''vshd'', ''pull'', ''hybrid''}" and "exchange_every \<noteq> 0"
  shows "(\<exists>r. run_mc S steps T mode rho g = Inr r \<and>
            length (energies r) = nat (min steps 10000) \<and>
            length (best_energies r) = length (energies r) \<and>
            length (energies r) \<le> 10000 \<and>
            (\<forall>i j. i < j \<and> j < length (best_energies r) \<longrightarrow>
                   best_energies r ! j \<le> best_energies r ! i)) \<and>
         (\<exists>r. run_remc S steps n_replicas tmin tmax exchange_every mode rho g = Inr r \<and>
            length (energies r) = nat (min steps 10000) \<and>
            length (best_energies r) = length (energies r) \<and>
            length (energies r) \<le> 10000 \<and>
            (\<forall>i j. i < j \<and> j < length (best_energies r) \<longrightarrow>
                   best_energies r ! j \<le> best_energies r ! i))"
proof -
  have shape: "length (energies r) = nat (min steps 10000) \<and>
            length (best_energies r) = length (energies r) \<and>
            length (energies r) \<le> 10000 \<and>
            (\<forall>i j. i < j \<and> j < length (best_energies r) \<longrightarrow>
                   best_energies r ! j \<le> best_energies r ! i)"
    if r: "result_inv S (nat (min steps 10000)) r" for r
  proof -
    from r have "length (energies r) = nat (min steps 10000)"
      "length (best_energies r) = nat (min steps 10000)"
      by (simp_all add: result_inv_def trace_inv_def)
    moreover have "nat (min steps 10000) \<le> 10000" by simp
    ultimately show ?thesis using result_monotone [OF r] by simp
  qed
  from run_mc_ok [OF assms(1,2), of steps T rho g] shape
  have mc: "\<exists>r. run_mc S steps T mode rho g = Inr r \<and>
            length (energies r) = nat (min steps 10000) \<and>
            length (best_energies r) = length (energies r) \<and>
            length (energies r) \<le> 10000 \<and>
            (\<forall>i j. i < j \<and> j < length (best_energies r) \<longrightarrow>
                   best_energies r ! j \<le> best_energies r ! i)"
    by blast
  from run_remc_ok [OF assms, of steps n_replicas tmin tmax rho g] shape
  have "\<exists>r. run_remc S steps n_replicas tmin tmax exchange_every mode rho g = Inr r \<and>
            length (energies r) = nat (min steps 10000) \<and>
            length (best_energies r) = length (energies r) \<and>
            length (energies r) \<le> 10000 \<and>
            (\<forall>i j. i < j \<and> j < length (best_energies r) \<longrightarrow>
                   best_energies r ! j \<le> best_energies r ! i)"
    by blast
  with mc show ?thesis by (rule conjI)
qed

theorem traces_length_and_monotone_witness:
  "2 \<le> length ''HH'' \<and> ''pull'' \<in> {''vshd'', ''pull'', ''hybrid''} \<and> (10 :: int) \<noteq> 0 \<and>
   (\<exists>r. run_mc ''HH'' 20000 1 ''pull'' (1 / 2) [] = Inr r \<and>
        length (energies r) = 10000 \<and> length (best_energies r) = 10000) \<and>
   (\<exists>r. run_remc ''HH'' 20000 4 (1 / 2) 2 10 ''pull'' (1 / 2) [] = Inr r \<and>
        length (energies r) = 10000 \<and> length (best_energies r) = 10000)"
proof -
  have a: "2 \<le> length ''HH''" by simp
  have b: "''pull'' \<in> {''vshd'', ''pull'', ''hybrid''}" by simp
  have c: "(10 :: int) \<noteq> 0" by simp
  have k: "nat (min 20000 10000) = 10000" by simp
  note T = traces_length_and_monotone [OF a b c, of 20000 1 "1 / 2" "[]" 4 "1 / 2" 2, unfolded k]
  from T [THEN conjunct1]
  have mc: "\<exists>r. run_mc ''HH'' 20000 1 ''pull'' (1 / 2) [] = Inr r \<and>
        length (energies r) = 10000 \<and> length (best_energies r) = 10000"
    by (elim exE conjE) (intro exI conjI, assumption, assumption, simp)
  from T [THEN conjunct2]
  have re: "\<exists>r. run_remc ''HH'' 20000 4 (1 / 2) 2 10 ''pull'' (1 / 2) [] = Inr r \<and>
        length (energies r) = 10000 \<and> length (best_energies r) = 10000"
    by (elim exE conjE) (intro exI conjI, assumption, assumption, simp)
  show ?thesis using a b c mc re by (intro conjI)
qed

text \<open>
  C4 (as the code has it). For a sequence of at least two residues, a known mode and a
  non-zero exchange period, \<^verbatim>\<open>run_mc\<close> and \<^verbatim>\<open>run_remc\<close> return; the returned best energy
  is the energy of the returned best conformation and is at most 0; when at least one
  step is requested it is the minimum of the best-so-far trace, and with no step the
  trace is empty and the best energy is 0. With the sequence HHHH and no step, both
  drivers return empty traces, best energy 0 and the straight line.
\<close>

theorem best_energy_of_runs:
  assumes "2 \<le> length S" and "mode \<in> {''vshd'', ''pull'', ''hybrid''}" and "exchange_every \<noteq> 0"
  shows "(\<exists>r. run_mc S steps T mode rho g = Inr r \<and>
            energy_hp (best_coords r) S = Inr (best_energy r) \<and> best_energy r \<le> 0 \<and>
            (1 \<le> steps \<longrightarrow> py_min (best_energies r) = Inr (best_energy r)) \<and>
            (steps \<le> 0 \<longrightarrow> best_energies r = [] \<and> best_energy r = 0)) \<and>
         (\<exists>r. run_remc S steps n_replicas tmin tmax exchange_every mode rho g = Inr r \<and>
            energy_hp (best_coords r) S = Inr (best_energy r) \<and> best_energy r \<le> 0 \<and>
            (1 \<le> steps \<longrightarrow> py_min (best_energies r) = Inr (best_energy r)) \<and>
            (steps \<le> 0 \<longrightarrow> best_energies r = [] \<and> best_energy r = 0)) \<and>
         run_mc ''HHHH'' 0 T' mode' rho' g' =
           Inr \<lparr>final_coords = [(0, 0), (1, 0), (2, 0), (3, 0)],
                best_coords = [(0, 0), (1, 0), (2, 0), (3, 0)],
                energies = [], best_energies = [], best_energy = 0\<rparr> \<and>
         run_remc ''HHHH'' 0 n_replicas' tmin' tmax' exchange_every' mode' rho' g' =
           Inr \<lparr>final_coords = [(0, 0), (1, 0), (2, 0), (3, 0)],
                best_coords = [(0, 0), (1, 0), (2, 0), (3, 0)],
                energies = [], best_energies = [], best_energy = 0\<rparr>"
proof -
  have shape: "energy_hp (best_coords r) S = Inr (best_energy r) \<and> best_energy r \<le> 0 \<and>
            (1 \<le> steps \<longrightarrow> py_min (best_energies r) = Inr (best_energy r))"
    if r: "result_inv S (nat (min steps 10000)) r" for r
  proof -
    have "py_min (best_energies r) = Inr (best_energy r)" if "1 \<le> steps"
      using r by (rule result_min) (use that in simp)
    with r show ?thesis by (simp add: result_inv_def best_inv_def)
  qed
  have mc: "\<exists>r. run_mc S steps T mode rho g = Inr r \<and>
            energy_hp (best_coords r) S = Inr (best_energy r) \<and> best_energy r \<le> 0 \<and>
            (1 \<le> steps \<longrightarrow> py_min (best_energies r) = Inr (best_energy r)) \<and>
            (steps \<le> 0 \<longrightarrow> best_energies r = [] \<and> best_energy r = 0)"
  proof -
    from run_mc_ok [OF assms(1,2), of steps T rho g]
    obtain r where r: "run_mc S steps T mode rho g = Inr r"
      "result_inv S (nat (min steps 10000)) r" by blast
    have "best_energies r = [] \<and> best_energy r = 0" if "steps \<le> 0"
      using r(1) run_mc_no_steps [OF that, of S T mode rho g] by auto
    with r(1) shape [OF r(2)] show ?thesis by blast
  qed
  have re: "\<exists>r. run_remc S steps n_replicas tmin tmax exchange_every mode rho g = Inr r \<and>
            energy_hp (best_coords r) S = Inr (best_energy r) \<and> best_energy r \<le> 0 \<and>
            (1 \<le> steps \<longrightarrow> py_min (best_energies r) = Inr (best_energy r)) \<and>
            (steps \<le> 0 \<longrightarrow> best_energies r = [] \<and> best_energy r = 0)"
  proof -
    from run_remc_ok [OF assms, of steps n_replicas tmin tmax rho g]
    obtain r where r: "run_remc S steps n_replicas tmin tmax exchange_every mode rho g = Inr r"
      "result_inv S (nat (min steps 10000)) r" by blast
    have "best_energies r = [] \<and> best_energy r = 0" if "steps \<le> 0"
      using r(1) run_remc_no_steps [OF that, of S n_replicas tmin tmax exchange_every mode rho g]
      by auto
    with r(1) shape [OF r(2)] show ?thesis by blast
  qed
  have s1: "run_mc ''HHHH'' 0 T' mode' rho' g' =
           Inr \<lparr>final_coords = [(0, 0), (1, 0), (2, 0), (3, 0)],
                best_coords = [(0, 0), (1, 0), (2, 0), (3, 0)],
                energies = [], best_energies = [], best_energy = 0\<rparr>"
    using run_mc_no_steps [of 0 "''HHHH''" T' mode' rho' g'] by (simp add: upt_4)
  have s1r: "run_remc ''HHHH'' 0 n_replicas' tmin' tmax' exchange_every' mode' rho' g' =
           Inr \<lparr>final_coords = [(0, 0), (1, 0), (2, 0), (3, 0)],
                best_coords = [(0, 0), (1, 0), (2, 0), (3, 0)],
                energies = [], best_energies = [], best_energy = 0\<rparr>"
    using run_remc_no_steps [of 0 "''HHHH''" n_replicas' tmin' tmax' exchange_every' mode' rho' g']
    by (simp add: upt_4)
  show ?thesis using mc re s1 s1r by (intro conjI)
qed

theorem best_energy_of_runs_witness:
  "2 \<le> length ''HHHH'' \<and> ''hybrid'' \<in> {''vshd'', ''pull'', ''hybrid''} \<and> (10 :: int) \<noteq> 0 \<and>
   (\<exists>r. run_mc ''HHHH'' 5 1 ''hybrid'' (1 / 2) [3, 1, 4] = Inr r \<and>
        energy_hp (best_coords r) ''HHHH'' = Inr (best_energy r) \<and> best_energy r \<le> 0 \<and>
        py_min (best_energies r) = Inr (best_energy r)) \<and>
   (\<exists>r. run_remc ''HHHH'' 5 4 (1 / 2) 2 10 ''hybrid'' (1 / 2) [3, 1, 4] = Inr r \<and>
        energy_hp (best_coords r) ''HHHH'' = Inr (best_energy r) \<and> best_energy r \<le> 0 \<and>
        py_min (best_energies r) = Inr (best_energy r))"
proof -
  have a: "2 \<le> length ''HHHH''" by simp
  have b: "''hybrid'' \<in> {''vshd'', ''pull'', ''hybrid''}" by simp
  have c: "(10 :: int) \<noteq> 0" by simp
  note T = best_energy_of_runs [OF a b c, of 5 1 "1 / 2" "[3, 1, 4]" 4 "1 / 2" 2]
  from T [THEN conjunct1]
  have mc: "\<exists>r. run_mc ''HHHH'' 5 1 ''hybrid'' (1 / 2) [3, 1, 4] = Inr r \<and>
        energy_hp (best_coords r) ''HHHH'' = Inr (best_energy r) \<and> best_energy r \<le> 0 \<and>
        py_min (best_energies r) = Inr (best_energy r)"
    by (elim exE conjE) (intro exI conjI, assumption, assumption, assumption, simp)
  from T [THEN conjunct2, THEN conjunct1]
  have re: "\<exists>r. run_remc ''HHHH'' 5 4 (1 / 2) 2 10 ''hybrid'' (1 / 2) [3, 1, 4] = Inr r \<and>
        energy_hp (best_coords r) ''HHHH'' = Inr (best_energy r) \<and> best_energy r \<le> 0 \<and>
        py_min (best_energies r) = Inr (best_energy r)"
    by (elim exE conjE) (intro exI conjI, assumption, assumption, assumption, simp)
  show ?thesis using a b c mc re by (intro conjI)
qed

theorem best_energy_is_no_minimum_without_steps:
  "py_min (best_energies (projr (run_mc ''HHHH'' 0 1 ''hybrid'' (1 / 2) []))) = Inl ValueError \<and>
   py_min (best_energies (projr (run_mc ''HHHH'' 0 1 ''hybrid'' (1 / 2) []))) \<noteq>
     Inr (best_energy (projr (run_mc ''HHHH'' 0 1 ''hybrid'' (1 / 2) [])))"
  using run_mc_no_steps [of 0 "''HHHH''" 1 "''hybrid''" "1 / 2" "[]"]
  by (simp add: py_min_def)

text \<open>
  C5 (as the code has it). The drivers validate nothing themselves. An unknown move
  mode makes a run of at least one step fail with ValueError, raised by the first call
  of \<^verbatim>\<open>attempt_move\<close>; a run with \<open>steps \<le> 0\<close> returns empty traces whatever the other
  parameters; and for a sequence of at least two residues and a known mode the run
  returns a result for every step count, temperature, \<open>tmin\<close>, \<open>tmax\<close> and \<open>\<rho>\<close> (for
  \<^verbatim>\<open>run_remc\<close>, given a non-zero exchange period).
\<close>

theorem errors_of_the_drivers:
  "(mode \<notin> {''vshd'', ''pull'', ''hybrid''} \<and> 1 \<le> steps \<longrightarrow>
      run_mc S steps T mode rho g = Inl ValueError \<and>
      run_remc S steps n_replicas tmin tmax exchange_every mode rho g = Inl ValueError) \<and>
   (steps \<le> 0 \<longrightarrow>
      (\<exists>r. run_mc S steps T mode rho g = Inr r \<and> energies r = [] \<and> best_energies r = []) \<and>
      (\<exists>r. run_remc S steps n_replicas tmin tmax exchange_every mode rho g = Inr r \<and>
           energies r = [] \<and> best_energies r = [])) \<and>
   (2 \<le> length S \<and> mode \<in> {''vshd'', ''pull'', ''hybrid''} \<longrightarrow>
      (\<exists>r. run_mc S steps T mode rho g = Inr r) \<and>
      (exchange_every \<noteq> 0 \<longrightarrow>
         (\<exists>r. run_remc S steps n_replicas tmin tmax exchange_every mode rho g = Inr r)))"
proof (intro conjI impI)
  assume "mode \<notin> {''vshd'', ''pull'', ''hybrid''} \<and> 1 \<le> steps"
  then show "run_mc S steps T mode rho g = Inl ValueError"
    by (simp add: run_mc_bad_mode)
next
  assume "mode \<notin> {''vshd'', ''pull'', ''hybrid''} \<and> 1 \<le> steps"
  then show "run_remc S steps n_replicas tmin tmax exchange_every mode rho g = Inl ValueError"
    by (simp add: run_remc_bad_mode)
next
  assume "steps \<le> 0"
  then show "\<exists>r. run_mc S steps T mode rho g = Inr r \<and> energies r = [] \<and> best_energies r = []"
    by (simp add: run_mc_no_steps)
next
  assume "steps \<le> 0"
  then show "\<exists>r. run_remc S steps n_replicas tmin tmax exchange_every mode rho g = Inr r \<and>
           energies r = [] \<and> best_energies r = []"
    by (simp add: run_remc_no_steps)
next
  assume "2 \<le> length S \<and> mode \<in> {''vshd'', ''pull'', ''hybrid''}"
  then show "\<exists>r. run_mc S steps T mode rho g = Inr r"
    using run_mc_ok [of S mode steps T rho g] by blast
next
  assume "2 \<le> length S \<and> mode \<in> {''vshd'', ''pull'', ''hybrid''}" and "exchange_every \<noteq> 0"
  then show "\<exists>r. run_remc S steps n_replicas tmin tmax exchange_every mode rho g = Inr r"
    using run_remc_ok [of S mode exchange_every steps n_replicas tmin tmax rho g] by blast
qed

theorem errors_of_the_drivers_witness:
  "''bogus'' \<notin> {''vshd'', ''pull'', ''hybrid''} \<and> (1 :: int) \<le> 1 \<and>
   run_mc ''HH'' 1 1 ''bogus'' (1 / 2) [] = Inl ValueError \<and>
   run_remc ''HH'' 1 4 (1 / 2) 2 10 ''bogus'' (1 / 2) [] = Inl ValueError \<and>
   (0 :: int) \<le> 0 \<and>
   (\<exists>r. run_mc ''HH'' 0 1 ''bogus'' (1 / 2) [] = Inr r \<and> energies r = [] \<and> best_energies r = []) \<and>
   2 \<le> length ''HH'' \<and> ''pull'' \<in> {''vshd'', ''pull'', ''hybrid''} \<and> (10 :: int) \<noteq> 0 \<and>
   (\<exists>r. run_mc ''HH'' 7 (- 1) ''pull'' 2 [] = Inr r) \<and>
   (\<exists>r. run_remc ''HH'' 7 4 3 1 10 ''pull'' 2 [] = Inr r)"
proof -
  have a: "''bogus'' \<notin> {''vshd'', ''pull'', ''hybrid''} \<and> (1 :: int) \<le> 1" by simp
  have b: "(0 :: int) \<le> 0" by simp
  have c: "2 \<le> length ''HH'' \<and> ''pull'' \<in> {''vshd'', ''pull'', ''hybrid''}" by simp
  have d: "(10 :: int) \<noteq> 0" by simp
  note T1 = errors_of_the_drivers [of "''bogus''" 1 "''HH''" 1 "1 / 2" "[]" 4 "1 / 2" 2 10,
      THEN conjunct1, rule_format, OF a]
  note T2 = errors_of_the_drivers [of "''bogus''" 0 "''HH''" 1 "1 / 2" "[]" 4 "1 / 2" 2 10,
      THEN conjunct2, THEN conjunct1, rule_format, OF b]
  note T3 = errors_of_the_drivers [of "''pull''" 7 "''HH''" "- 1" 2 "[]" 4 3 1 10,
      THEN conjunct2, THEN conjunct2, rule_format, OF c]
  show ?thesis
    using a [THEN conjunct1] a [THEN conjunct2] T1 [THEN conjunct1] T1 [THEN conjunct2] b
      T2 [THEN conjunct1] c [THEN conjunct1] c [THEN conjunct2] d T3 [THEN conjunct1]
      T3 [THEN conjunct2, rule_format, OF d]
    by (intro conjI)
qed

lemma upt_2: "[0..<2] = [0, 1]"
  by (simp add: upt_rec)

theorem invalid_parameters_are_accepted:
  "run_mc ''HH'' 0 1 ''bogus'' (1 / 2) [] =
     Inr \<lparr>final_coords = [(0, 0), (1, 0)], best_coords = [(0, 0), (1, 0)],
          energies = [], best_energies = [], best_energy = 0\<rparr> \<and>
   run_mc ''HH'' 1 (- 1) ''pull'' 2 [] =
     Inr \<lparr>final_coords = [(0, 0), (1, 0)], best_coords = [(0, 0), (1, 0)],
          energies = [0], best_energies = [0], best_energy = 0\<rparr> \<and>
   run_remc ''HH'' 0 2 3 1 10 ''pull'' (1 / 2) [] =
     Inr \<lparr>final_coords = [(0, 0), (1, 0)], best_coords = [(0, 0), (1, 0)],
          energies = [], best_energies = [], best_energy = 0\<rparr> \<and>
   run_remc ''HH'' 1 2 3 1 1 ''pull'' 2 [] =
     Inr \<lparr>final_coords = [(0, 0), (1, 0)], best_coords = [(0, 0), (1, 0)],
          energies = [0], best_energies = [0], best_energy = 0\<rparr>"
proof -
  have e: "energy_hp [(0, 0), (1, 0)] ''HH'' = Inr 0"
    using energy_line [of "''HH''"] by (simp add: upt_2)
  have "run_mc ''HH'' 0 1 ''bogus'' (1 / 2) [] =
     Inr \<lparr>final_coords = [(0, 0), (1, 0)], best_coords = [(0, 0), (1, 0)],
          energies = [], best_energies = [], best_energy = 0\<rparr>"
    using run_mc_no_steps [of 0 "''HH''" 1 "''bogus''" "1 / 2" "[]"] by (simp add: upt_2)
  moreover have "run_mc ''HH'' 1 (- 1) ''pull'' 2 [] =
     Inr \<lparr>final_coords = [(0, 0), (1, 0)], best_coords = [(0, 0), (1, 0)],
          energies = [0], best_energies = [0], best_energy = 0\<rparr>"
    by (simp add: run_mc_def upt_2 e mc_step_def attempt_move_def attempt_pull_def mc_trace_def Let_def)
  moreover have "run_remc ''HH'' 0 2 3 1 10 ''pull'' (1 / 2) [] =
     Inr \<lparr>final_coords = [(0, 0), (1, 0)], best_coords = [(0, 0), (1, 0)],
          energies = [], best_energies = [], best_energy = 0\<rparr>"
    using run_remc_no_steps [of 0 "''HH''" 2 3 1 10 "''pull''" "1 / 2" "[]"] by (simp add: upt_2)
  moreover have "run_remc ''HH'' 1 2 3 1 1 ''pull'' 2 [] =
     Inr \<lparr>final_coords = [(0, 0), (1, 0)], best_coords = [(0, 0), (1, 0)],
          energies = [0], best_energies = [0], best_energy = 0\<rparr>"
    by (simp add: run_remc_def upt_2 e remc_step_def replica_move_def attempt_move_def
        attempt_pull_def exchange_sweep_def pair_starts_def exchange_pair_def exchange_acc_def
        exchange_delta_def np_recip_def random_unit_def next_raw_def linspace_def Let_def numeral_2_eq_2)
  ultimately show ?thesis by (intro conjI)
qed

section \<open>Claim about the exchange sweep\<close>
















text \<open>
  At a zero temperature the quantity is nan or infinite, as in NumPy: with equal
  energies it is nan and nothing is swapped; when the colder replica has the higher
  energy it is -inf and nothing is swapped either.
\<close>

lemma exchange_at_zero_temperature:
  "exchange_delta (two_replicas\<lparr>re_temps := [0, 1], re_E := [0, 0]\<rparr>) 0 = NaN \<and>
   re_coords (exchange_pair 0 (two_replicas\<lparr>re_temps := [0, 1], re_E := [0, 0]\<rparr>)) =
     re_coords two_replicas \<and>
   exchange_delta (two_replicas\<lparr>re_temps := [0, 1], re_E := [0, - 1]\<rparr>) 0 = NegInf \<and>
   re_coords (exchange_pair 0 (two_replicas\<lparr>re_temps := [0, 1], re_E := [0, - 1]\<rparr>)) =
     re_coords two_replicas"
  using random_unit_range [of "[5]"]
  by (auto simp: exchange_pair_def exchange_acc_def exchange_delta_def np_recip_def Let_def
      two_replicas_def split: prod.splits)

end
